theory Spec2Isabelle
  imports Complex_Main "HOL-Library.Word" "HOL-Library.Sublist"
begin

section \<open>fixelcfestats: the command line and the sequence of outputs\<close>

text \<open>
  The source is \<^verbatim>\<open>src/cmd/fixelcfestats.cpp\<close>. Its \<^verbatim>\<open>value_type\<close> is \<^verbatim>\<open>float\<close>;
  a finite value is a real in the model, so rounding and overflow are outside it. The
  infinities and NaN come in where the code can produce them, from the division of line
  373 on (type \<open>float_value\<close> below). A
  \<^verbatim>\<open>std::vector\<close> is a list, read with \<open>xs ! i\<close> and written with \<open>xs[i := v]\<close>. The
  source has no defined behaviour for an index outside a vector, so what the model
  computes there says nothing about the code; the matrices that the track processor
  builds keep every key below the number of fixels.
\<close>

type_synonym value_type = real

text \<open>
  The OPTIONS of \<^verbatim>\<open>usage()\<close>, as the command line gives them: a flag is present or
  not, an option with an argument is absent (\<open>None\<close>) or carries its parsed argument.
  \<^verbatim>\<open>get_options (name).size()\<close> is "the field is present", \<^verbatim>\<open>opt[0][0]\<close> its argument.
\<close>

record options =
  opt_notest :: bool
  opt_nperms :: "int option"
  opt_cfe_dh :: "value_type option"
  opt_cfe_e :: "value_type option"
  opt_cfe_h :: "value_type option"
  opt_cfe_c :: "value_type option"
  opt_angle :: "value_type option"
  opt_connectivity :: "value_type option"
  opt_smooth :: "value_type option"
  opt_nonstationary :: bool
  opt_nperms_nonstationary :: "int option"

definition no_options :: options where
  "no_options = \<lparr> opt_notest = False, opt_nperms = None, opt_cfe_dh = None,
     opt_cfe_e = None, opt_cfe_h = None, opt_cfe_c = None, opt_angle = None,
     opt_connectivity = None, opt_smooth = None, opt_nonstationary = False,
     opt_nperms_nonstationary = None \<rparr>"

text \<open>The local variables that \<^verbatim>\<open>run()\<close> sets from the options (lines 208 to 254).\<close>

record settings =
  cfe_dh :: value_type
  cfe_h :: value_type
  cfe_e :: value_type
  cfe_c :: value_type
  num_perms :: int
  angular_threshold :: value_type
  connectivity_threshold :: value_type
  smooth_std_dev :: value_type
  do_nonstationary_adjustment :: bool
  nperms_nonstationary :: int

text \<open>
  Each variable starts at the initial value written in the code and is overwritten by
  the argument of the option that the code reads for it. The block of lines 251 to 254
  reads \<^verbatim>\<open>nperms\<close> a second time and assigns \<^verbatim>\<open>num_perms\<close> again, so
  \<^verbatim>\<open>nperms_nonstationary\<close> keeps its initial value; line 249 asks for the presence of
  \<^verbatim>\<open>nperms_nonstationary\<close>, and the option \<^verbatim>\<open>nonstationary\<close> is never read.
\<close>

definition read_options :: "options \<Rightarrow> settings" where
  "read_options opts =
     \<lparr> cfe_dh = (case opt_cfe_dh opts of None \<Rightarrow> 0.1 | Some v \<Rightarrow> v),
       cfe_h = (case opt_cfe_h opts of None \<Rightarrow> 2.0 | Some v \<Rightarrow> v),
       cfe_e = (case opt_cfe_e opts of None \<Rightarrow> 1.0 | Some v \<Rightarrow> v),
       cfe_c = (case opt_cfe_c opts of None \<Rightarrow> 0.1 | Some v \<Rightarrow> v),
       num_perms =
         (let num_perms = (case opt_nperms opts of None \<Rightarrow> 5000 | Some n \<Rightarrow> n)
          in (case opt_nperms opts of None \<Rightarrow> num_perms | Some n \<Rightarrow> n)),
       angular_threshold = (case opt_angle opts of None \<Rightarrow> 30.0 | Some v \<Rightarrow> v),
       connectivity_threshold = (case opt_connectivity opts of None \<Rightarrow> 0.01 | Some v \<Rightarrow> v),
       smooth_std_dev = (case opt_smooth opts of None \<Rightarrow> 10.0 / 2.3548 | Some v \<Rightarrow> v / 2.3548),
       do_nonstationary_adjustment = (opt_nperms_nonstationary opts \<noteq> None),
       nperms_nonstationary = 5000 \<rparr>"

text \<open>
  What \<^verbatim>\<open>run()\<close> reads from its arguments before it writes anything: for every line of
  the input list whether the named file exists, the shapes of the design and contrast
  matrices, the \<^verbatim>\<open>count\<close> property of the track file, and the output prefix.
\<close>

record inputs =
  input_exists :: "bool list"
  design_rows :: nat
  design_columns :: nat
  contrast_columns :: nat
  track_count :: "nat option"
  output_prefix :: string

datatype exception =
  Input_not_found
  | Subjects_mismatch
  | Too_many_contrasts
  | No_tracks

text \<open>
  Line 471 builds the integrator of the enhancement from \<^verbatim>\<open>cfe_dh\<close>, \<^verbatim>\<open>cfe_e\<close>
  and \<^verbatim>\<open>cfe_h\<close>, in this order.
\<close>

definition cfe_integrator :: "settings \<Rightarrow> value_type \<times> value_type \<times> value_type" where
  "cfe_integrator s = (cfe_dh s, cfe_e s, cfe_h s)"

text \<open>
  The effects of \<^verbatim>\<open>run()\<close> after the data matrix is loaded, in program order: a fixel
  map written by \<^verbatim>\<open>write_fixel_output\<close>, a vector written by \<^verbatim>\<open>save\<close>, the
  empirical pre-pass and the permutation test, each with the integrator and the number of
  permutations it is called with.
\<close>

datatype event =
  Write_fixel_output string
  | Save string
  | Precompute_empirical_stat "value_type \<times> value_type \<times> value_type" int
  | TFCE_run "value_type \<times> value_type \<times> value_type" int

text \<open>\<^verbatim>\<open>str(i)\<close> of a \<^verbatim>\<open>size_t\<close>: the decimal digits.\<close>

definition digit :: "nat \<Rightarrow> char" where
  "digit d = ''0123456789'' ! d"

fun str :: "nat \<Rightarrow> string" where
  "str n = (if n < 10 then [digit n] else str (n div 10) @ [digit (n mod 10)])"

declare str.simps [simp del]

definition beta_outputs :: "string \<Rightarrow> nat \<Rightarrow> event list" where
  "beta_outputs pfx columns =
     map (\<lambda>i. Write_fixel_output (pfx @ ''_beta'' @ str i @ ''.msf'')) [0..<columns]"

text \<open>
  Lines 256 to 283 and 328 to 330 throw before any output. The contrast matrix is
  resized to the columns of the design (line 282), so the loop of line 459 runs over
  \<open>design_columns\<close>. Lines 484 to 520 follow; the statements of lines 512, 514, 516 and
  519 are commented out in the source and so have no counterpart here.
\<close>

definition run :: "options \<Rightarrow> inputs \<Rightarrow> exception + event list" where
  "run opts inp =
     (let s = read_options opts;
          pfx = output_prefix inp;
          num_tracks = (case track_count inp of None \<Rightarrow> 0 | Some c \<Rightarrow> c)
      in
        if \<not> list_all (\<lambda>e. e) (input_exists inp) then Inl Input_not_found
        else if design_rows inp \<noteq> length (input_exists inp) then Inl Subjects_mismatch
        else if contrast_columns inp > design_columns inp then Inl Too_many_contrasts
        else if num_tracks = 0 then Inl No_tracks
        else Inr
          (beta_outputs pfx (design_columns inp)
           @ [Write_fixel_output (pfx @ ''_abs_effect.msf''),
              Write_fixel_output (pfx @ ''_std_effect.msf''),
              Write_fixel_output (pfx @ ''_std_dev.msf'')]
           @ (if do_nonstationary_adjustment s
              then [Precompute_empirical_stat (cfe_integrator s) (nperms_nonstationary s),
                    Write_fixel_output (pfx @ ''_cfe_empirical.msf'')]
              else [])
           @ (if \<not> opt_notest opts
              then [TFCE_run (cfe_integrator s) (num_perms s),
                    Save (pfx @ ''_perm_dist_pos.txt''),
                    Write_fixel_output (pfx @ ''_cfe_pos.msf''),
                    Write_fixel_output (pfx @ ''_tvalue.msf''),
                    Write_fixel_output (pfx @ ''_pvalue_pos.msf'')]
              else [])))"

text \<open>The names of the files a run leaves behind (none when it throws).\<close>

fun file_of :: "event \<Rightarrow> string list" where
  "file_of (Write_fixel_output f) = [f]"
| "file_of (Save f) = [f]"
| "file_of (Precompute_empirical_stat integrator n) = []"
| "file_of (TFCE_run integrator n) = []"

definition files_written :: "exception + event list \<Rightarrow> string list" where
  "files_written r = (case r of Inl e \<Rightarrow> [] | Inr evs \<Rightarrow> concat (map file_of evs))"

text \<open>A small run used as a concrete input: two subjects, two regressors, a thousand tracks.\<close>

definition small_inputs :: inputs where
  "small_inputs = \<lparr> input_exists = [True, True], design_rows = 2, design_columns = 2,
     contrast_columns = 2, track_count = Some 1000, output_prefix = ''out'' \<rparr>"

text \<open>Two command lines with \<^verbatim>\<open>notest\<close>, the second also asking for the empirical pre-pass.\<close>

definition notest_run :: options where
  "notest_run = no_options \<lparr> opt_notest := True \<rparr>"

definition notest_nonstationary_run :: options where
  "notest_nonstationary_run =
     no_options \<lparr> opt_notest := True, opt_nonstationary := True,
                  opt_nperms_nonstationary := Some 100 \<rparr>"

text \<open>
  The file names that belong to the permutation test: \<^verbatim>\<open>_cfe_*\<close>, \<^verbatim>\<open>_pvalue_*\<close> and
  \<^verbatim>\<open>_perm_dist_*\<close> after the output prefix.
\<close>

definition test_output_pattern :: "string \<Rightarrow> string \<Rightarrow> bool" where
  "test_output_pattern pfx f =
     (prefix (pfx @ ''_cfe_'') f \<or> prefix (pfx @ ''_pvalue_'') f \<or> prefix (pfx @ ''_perm_dist_'') f)"

text \<open>The population statistics: one beta map per column, then the effect sizes and the standard deviation.\<close>

definition population_outputs :: "string \<Rightarrow> nat \<Rightarrow> string list" where
  "population_outputs pfx columns =
     map (\<lambda>i. pfx @ ''_beta'' @ str i @ ''.msf'') [0..<columns]
     @ [pfx @ ''_abs_effect.msf'', pfx @ ''_std_effect.msf'', pfx @ ''_std_dev.msf'']"

section \<open>The fixel index (lines 288 to 317)\<close>

text \<open>
  \<^verbatim>\<open>Point<value_type>\<close> with the two operations the code uses. \<^verbatim>\<open>normalise\<close> divides
  by the Euclidean norm; on the zero vector the code gets NaN components, for which every
  comparison \<^verbatim>\<open>dp > largest_dp\<close> is false, and the model gets the zero vector, for
  which it is false as well.
\<close>

type_synonym point = "value_type \<times> value_type \<times> value_type"

fun dot :: "point \<Rightarrow> point \<Rightarrow> value_type" where
  "dot (x, y, z) (x', y', z') = x * x' + y * y' + z * z'"

definition normalise :: "point \<Rightarrow> point" where
  "normalise p = (case p of (x, y, z) \<Rightarrow>
     (let n = sqrt (dot p p) in (x / n, y / n, z / n)))"

text \<open>
  Modelled from the spec: the class \<^verbatim>\<open>FixelMetric\<close> of
  \<^verbatim>\<open>image/sparse/fixel_metric.h\<close> is not among the source files; the spec gives a
  fixel a direction, a value and a size.
\<close>

record FixelMetric =
  fixel_dir :: point
  fixel_value :: value_type
  fixel_size :: value_type

text \<open>
  The mask image in the order in which \<^verbatim>\<open>LoopInOrder\<close> visits its voxels. A voxel is
  named by its place in that order; it carries its scanner position (what
  \<^verbatim>\<open>voxel2scanner\<close> returns for it) and its fixels, none for an empty voxel.
\<close>

type_synonym mask_voxel = "point \<times> FixelMetric list"

type_synonym int32_t = "32 word"
type_synonym uint16_t = "16 word"

text \<open>
  \<^verbatim>\<open>fixel_indexer\<close> holds two \<^verbatim>\<open>int32_t\<close> per voxel: plane 0 and plane 1 of the
  fourth axis.
\<close>

record fixel_index =
  indexer :: "(int32_t \<times> int32_t) list"
  positions :: "point list"
  directions :: "point list"

text \<open>Lines 294 to 296: every value of both planes is set to \<open>-1\<close>.\<close>

definition initial_index :: "nat \<Rightarrow> fixel_index" where
  "initial_index num_voxels =
     \<lparr> indexer = replicate num_voxels (- 1, - 1), positions = [], directions = [] \<rparr>"

text \<open>
  Lines 303 to 315: the loop visits every voxel of the mask. For each one it writes the
  current number of directions into plane 0, pushes direction and position of each fixel
  of the voxel, and writes the number of fixels of the voxel into plane 1.
\<close>

fun index_loop :: "mask_voxel list \<Rightarrow> nat \<Rightarrow> fixel_index \<Rightarrow> fixel_index" where
  "index_loop [] v st = st"
| "index_loop ((pos, fixels) # rest) v st =
     index_loop rest (Suc v)
       \<lparr> indexer = (indexer st)[v := (word_of_nat (length (directions st)),
                                       word_of_nat (length fixels))],
         positions = positions st @ replicate (length fixels) pos,
         directions = directions st @ map fixel_dir fixels \<rparr>"

definition build_index :: "mask_voxel list \<Rightarrow> fixel_index" where
  "build_index mask_image = index_loop mask_image 0 (initial_index (length mask_image))"

definition num_fixels :: "fixel_index \<Rightarrow> nat" where
  "num_fixels idx = length (directions idx)"

text \<open>
  For the voxels of a mask in turn, the number of fixels before the voxel and in it, the
  count starting at \<open>n\<close>.
\<close>

fun first_fixels :: "nat \<Rightarrow> mask_voxel list \<Rightarrow> (nat \<times> nat) list" where
  "first_fixels n [] = []"
| "first_fixels n ((pos, fixels) # rest) = (n, length fixels) # first_fixels (n + length fixels) rest"

text \<open>A mask of three voxels: an empty one, one with a single fixel along x, an empty one.\<close>

definition x_fixel :: FixelMetric where
  "x_fixel = \<lparr> fixel_dir = (1, 0, 0), fixel_value = 1, fixel_size = 1 \<rparr>"

definition sparse_mask :: "mask_voxel list" where
  "sparse_mask = [((0, 0, 0), []), ((1, 0, 0), [x_fixel]), ((2, 0, 0), [])]"

section \<open>The track processor (lines 114 to 180)\<close>

text \<open>
  Modelled from the spec: the class \<^verbatim>\<open>Stats::TFCE::connectivity\<close> of
  \<^verbatim>\<open>stats/tfce.h\<close> is not among the source files. The code uses its one member
  \<^verbatim>\<open>value\<close>, first as a count and later as a weight; in the spec a cell exists from its
  first increment on and then counts 1, so a new one starts at 0.
\<close>

type_synonym connectivity = value_type

text \<open>
  A \<^verbatim>\<open>std::map\<close> keyed by fixel index is an association list in ascending order of the
  keys, which is the order of its iterator. The code uses the keys as vector indices, so
  they are natural numbers here. \<open>map_assign\<close> is \<^verbatim>\<open>m[k] = v\<close>; \<open>map_insert\<close> is
  \<^verbatim>\<open>m.insert (std::pair (k, v))\<close>, which leaves a map that has the key as it is;
  \<open>map_value\<close> is what \<^verbatim>\<open>m[k].value\<close> reads, the value of a new entry when the key is
  absent.
\<close>

fun map_assign :: "nat \<Rightarrow> 'v \<Rightarrow> (nat \<times> 'v) list \<Rightarrow> (nat \<times> 'v) list" where
  "map_assign k v [] = [(k, v)]"
| "map_assign k v ((k', v') # m) =
     (if k < k' then (k, v) # (k', v') # m
      else if k = k' then (k, v) # m
      else (k', v') # map_assign k v m)"

definition map_insert :: "nat \<Rightarrow> 'v \<Rightarrow> (nat \<times> 'v) list \<Rightarrow> (nat \<times> 'v) list" where
  "map_insert k v m = (case map_of m k of None \<Rightarrow> map_assign k v m | Some v' \<Rightarrow> m)"

definition map_value :: "(nat \<times> connectivity) list \<Rightarrow> nat \<Rightarrow> connectivity" where
  "map_value m k = (case map_of m k of None \<Rightarrow> 0 | Some v \<Rightarrow> v)"

text \<open>The set of keys of a map.\<close>

definition map_keys :: "(nat \<times> 'v) list \<Rightarrow> nat set" where
  "map_keys m = fst ` set m"

text \<open>The two vectors that the track processor updates (lines 321 and 322).\<close>

record track_state =
  fixel_TDI :: "uint16_t list"
  connectivity_matrix :: "(nat \<times> connectivity) list list"

definition initial_state :: "nat \<Rightarrow> track_state" where
  "initial_state n = \<lparr> fixel_TDI = replicate n 0, connectivity_matrix = replicate n [] \<rparr>"

text \<open>Line 128: the threshold in degrees becomes a threshold on the dot product.\<close>

definition angular_threshold_dp :: "value_type \<Rightarrow> value_type" where
  "angular_threshold_dp angle = cos (angle * (pi / 180))"

text \<open>
  Lines 142 to 152: among the fixels \<open>first_index \<le> j < last_index\<close> of the voxel, the
  one whose direction has the largest absolute dot product with the tangent, starting
  from \<open>largest_dp = 0\<close> and \<open>closest_fixel_index = -1\<close>.
\<close>

definition closest_fixel :: "point list \<Rightarrow> point \<Rightarrow> int \<Rightarrow> int \<Rightarrow> value_type \<times> int" where
  "closest_fixel fixel_directions d first_index last_index =
     fold (\<lambda>j (largest_dp, closest_fixel_index).
             (let dp = \<bar>dot d (fixel_directions ! nat j)\<bar>
              in if dp > largest_dp then (dp, j) else (largest_dp, closest_fixel_index)))
          [first_index..last_index - 1] (0, - 1)"

text \<open>
  Lines 134 to 158, over the voxels of one streamline in the order of the iterator of its
  \<^verbatim>\<open>SetVoxelDir\<close>; each voxel comes with its tangent. The state is the list
  \<^verbatim>\<open>tract_fixel_indices\<close> and the vector \<^verbatim>\<open>fixel_TDI\<close>, whose increment wraps around
  at 16 bits. An increment at an index outside the vector has no defined behaviour in the
  source; the model stops there with \<open>None\<close>.
\<close>

fun assign_fixels ::
  "fixel_index \<Rightarrow> value_type \<Rightarrow> (nat \<times> point) list \<Rightarrow> nat list \<times> uint16_t list
     \<Rightarrow> (nat list \<times> uint16_t list) option" where
  "assign_fixels idx threshold_dp [] st = Some st"
| "assign_fixels idx threshold_dp ((v, tangent) # rest) (tract_fixel_indices, tdi) =
     (let first_index = sint (fst (indexer idx ! v)) in
      if first_index \<ge> 0 then
        (let last_index = first_index + sint (snd (indexer idx ! v));
             (largest_dp, closest_fixel_index) =
                closest_fixel (directions idx) (normalise tangent) first_index last_index
         in if largest_dp > threshold_dp then
              (if closest_fixel_index < 0 \<or> nat closest_fixel_index \<ge> length tdi then None
               else assign_fixels idx threshold_dp rest
                      (tract_fixel_indices @ [nat closest_fixel_index],
                       tdi[nat closest_fixel_index := tdi ! nat closest_fixel_index + 1]))
            else assign_fixels idx threshold_dp rest (tract_fixel_indices, tdi))
      else assign_fixels idx threshold_dp rest (tract_fixel_indices, tdi))"

text \<open>Line 163: \<^verbatim>\<open>connectivity_matrix[a][b].value++\<close>.\<close>

definition increment ::
  "nat \<Rightarrow> nat \<Rightarrow> (nat \<times> connectivity) list list \<Rightarrow> (nat \<times> connectivity) list list" where
  "increment a b M = M[a := map_assign b (map_value (M ! a) b + 1) (M ! a)]"

text \<open>
  Lines 160 to 167: for every position \<open>i\<close> of \<^verbatim>\<open>tract_fixel_indices\<close> and every later
  position \<open>j\<close>, the cell in the row of the \<open>i\<close>-th fixel and the column of the \<open>j\<close>-th.
\<close>

fun accumulate ::
  "nat list \<Rightarrow> (nat \<times> connectivity) list list \<Rightarrow> (nat \<times> connectivity) list list" where
  "accumulate [] M = M"
| "accumulate (a # rest) M = accumulate rest (fold (increment a) rest M)"

text \<open>\<^verbatim>\<open>TrackProcessor::operator()\<close> on one streamline.\<close>

definition track_processor ::
  "fixel_index \<Rightarrow> value_type \<Rightarrow> (nat \<times> point) list \<Rightarrow> track_state \<Rightarrow> track_state option" where
  "track_processor idx threshold_dp streamline st =
     (case assign_fixels idx threshold_dp streamline ([], fixel_TDI st) of
        None \<Rightarrow> None
      | Some (tract_fixel_indices, tdi) \<Rightarrow>
          Some \<lparr> fixel_TDI = tdi,
                 connectivity_matrix = accumulate tract_fixel_indices (connectivity_matrix st) \<rparr>)"

text \<open>
  Lines 339 to 344 hand every streamline of the track file to the processor. The model
  runs them one after the other; the interleaving of the worker threads is outside it.
\<close>

fun process_tracks ::
  "fixel_index \<Rightarrow> value_type \<Rightarrow> (nat \<times> point) list list \<Rightarrow> track_state \<Rightarrow> track_state option" where
  "process_tracks idx threshold_dp [] st = Some st"
| "process_tracks idx threshold_dp (streamline # rest) st =
     (case track_processor idx threshold_dp streamline st of
        None \<Rightarrow> None
      | Some st' \<Rightarrow> process_tracks idx threshold_dp rest st')"

text \<open>
  The list \<^verbatim>\<open>tract_fixel_indices\<close> of a streamline: the fixels of its accepted matches,
  for a vector \<^verbatim>\<open>fixel_TDI\<close> of \<open>n\<close> counters.
\<close>

definition accepted_fixels :: "fixel_index \<Rightarrow> value_type \<Rightarrow> nat \<Rightarrow> (nat \<times> point) list \<Rightarrow> nat list" where
  "accepted_fixels idx threshold_dp n streamline =
     (case assign_fixels idx threshold_dp streamline ([], replicate n 0) of
        None \<Rightarrow> [] | Some (tract_fixel_indices, tdi) \<Rightarrow> tract_fixel_indices)"

text \<open>
  The pairs (earlier entry, later entry) of a list; \<open>(a, b)\<close> occurs in them as often as
  \<open>a\<close> stands before \<open>b\<close> in the list.
\<close>

fun ordered_pairs :: "'a list \<Rightarrow> ('a \<times> 'a) list" where
  "ordered_pairs [] = []"
| "ordered_pairs (a # rest) = map (Pair a) rest @ ordered_pairs rest"

text \<open>
  Concrete inputs: a mask with one voxel and one fixel along x, with a streamline through
  it along x; and a mask of two voxels with one fixel each, along x and along y, with a
  streamline whose voxel set lists the second voxel first.
\<close>

definition y_fixel :: FixelMetric where
  "y_fixel = \<lparr> fixel_dir = (0, 1, 0), fixel_value = 1, fixel_size = 1 \<rparr>"

definition one_fixel_mask :: "mask_voxel list" where
  "one_fixel_mask = [((0, 0, 0), [x_fixel])]"

definition x_streamline :: "(nat \<times> point) list" where
  "x_streamline = [(0, (1, 0, 0))]"

definition two_fixel_mask :: "mask_voxel list" where
  "two_fixel_mask = [((0, 0, 0), [x_fixel]), ((1, 0, 0), [y_fixel])]"

definition descending_streamline :: "(nat \<times> point) list" where
  "descending_streamline = [(1, (0, 1, 0)), (0, (1, 0, 0))]"

section \<open>Symmetrising, thresholding and smoothing weights (lines 349 to 407)\<close>

text \<open>
  Lines 350 to 357. For each fixel in ascending order and each entry of its row in the
  order of the iterator, \<^verbatim>\<open>connectivity_matrix[it->first][fixel] = it->second\<close>. The
  row under the iterator is assigned only at its own diagonal entry and only the value
  that entry already has, so the loop visits the entries the row had when its turn began.
\<close>

definition symmetrise_row ::
  "nat \<Rightarrow> (nat \<times> connectivity) list list \<Rightarrow> (nat \<times> connectivity) list list" where
  "symmetrise_row fixel M =
     fold (\<lambda>(k, v) M'. M'[k := map_assign fixel v (M' ! k)]) (M ! fixel) M"

definition symmetrise ::
  "nat \<Rightarrow> (nat \<times> connectivity) list list \<Rightarrow> (nat \<times> connectivity) list list" where
  "symmetrise n M = fold symmetrise_row [0..<n] M"

text \<open>Lines 361 to 367: the constants of the Gaussian kernel.\<close>

definition do_smoothing :: "settings \<Rightarrow> bool" where
  "do_smoothing s = (smooth_std_dev s > 0)"

definition gaussian_const2 :: "settings \<Rightarrow> value_type" where
  "gaussian_const2 s = 2 * smooth_std_dev s * smooth_std_dev s"

definition gaussian_const1 :: "settings \<Rightarrow> value_type" where
  "gaussian_const1 s =
     (if smooth_std_dev s > 0 then 1 / (smooth_std_dev s * sqrt (2 * pi)) else 1)"

text \<open>Lines 378 to 380: the Euclidean distance of two positions.\<close>

fun distance :: "point \<Rightarrow> point \<Rightarrow> value_type" where
  "distance (x, y, z) (x', y', z') = sqrt ((x - x')\<^sup>2 + (y - y')\<^sup>2 + (z - z')\<^sup>2)"

text \<open>\<^verbatim>\<open>m.erase (it)\<close>: the entry under the iterator leaves the map.\<close>

definition map_erase :: "nat \<Rightarrow> (nat \<times> 'v) list \<Rightarrow> (nat \<times> 'v) list" where
  "map_erase k m = filter (\<lambda>(k', v). k' \<noteq> k) m"

text \<open>
  From line 373 on a value of the code can be an infinity or NaN: the line divides a count
  by the track density of the row, which can be 0, and nothing tests for that. From there
  on a \<^verbatim>\<open>float\<close> is a finite value, a real as everywhere in this model, or one of the
  three special values of IEEE 754. The operations are those of IEEE 754 where a special
  value goes in or comes out and those of the reals otherwise; rounding, overflow and the
  sign of a zero stay outside the model. A divisor 0 is \<^verbatim>\<open>+0\<close>: the code divides by a
  converted counter and by a sum that starts at \<^verbatim>\<open>0.0\<close>.
\<close>

datatype float_value = Finite real | Plus_infinity | Minus_infinity | NaN

fun float_uminus :: "float_value \<Rightarrow> float_value" where
  "float_uminus (Finite x) = Finite (- x)"
| "float_uminus Plus_infinity = Minus_infinity"
| "float_uminus Minus_infinity = Plus_infinity"
| "float_uminus NaN = NaN"

text \<open>\<^verbatim>\<open>a < b\<close>: false as soon as one side is NaN.\<close>

fun float_less :: "float_value \<Rightarrow> float_value \<Rightarrow> bool" where
  "float_less (Finite x) (Finite y) = (x < y)"
| "float_less (Finite x) Plus_infinity = True"
| "float_less Minus_infinity (Finite y) = True"
| "float_less Minus_infinity Plus_infinity = True"
| "float_less a b = False"

text \<open>\<^verbatim>\<open>a + b\<close>: the sum of the two infinities is NaN.\<close>

fun float_plus :: "float_value \<Rightarrow> float_value \<Rightarrow> float_value" where
  "float_plus (Finite x) (Finite y) = Finite (x + y)"
| "float_plus NaN b = NaN"
| "float_plus a NaN = NaN"
| "float_plus Plus_infinity Minus_infinity = NaN"
| "float_plus Minus_infinity Plus_infinity = NaN"
| "float_plus (Finite x) b = b"
| "float_plus a b = a"

text \<open>\<^verbatim>\<open>a * b\<close>: an infinity times 0 is NaN.\<close>

fun float_times :: "float_value \<Rightarrow> float_value \<Rightarrow> float_value" where
  "float_times (Finite x) (Finite y) = Finite (x * y)"
| "float_times NaN b = NaN"
| "float_times a NaN = NaN"
| "float_times (Finite x) b = (if x = 0 then NaN else if 0 < x then b else float_uminus b)"
| "float_times a (Finite y) = (if y = 0 then NaN else if 0 < y then a else float_uminus a)"
| "float_times a b = (if a = b then Plus_infinity else Minus_infinity)"

text \<open>
  \<^verbatim>\<open>a / b\<close>: a finite value other than 0 divided by 0 is an infinity of its sign, 0 / 0
  and the quotient of two infinities are NaN, and a finite value divided by an infinity
  is 0.
\<close>

fun float_divide :: "float_value \<Rightarrow> float_value \<Rightarrow> float_value" where
  "float_divide (Finite x) (Finite y) =
     (if y \<noteq> 0 then Finite (x / y)
      else if 0 < x then Plus_infinity else if x < 0 then Minus_infinity else NaN)"
| "float_divide NaN b = NaN"
| "float_divide a NaN = NaN"
| "float_divide (Finite x) b = Finite 0"
| "float_divide a (Finite y) = (if 0 \<le> y then a else float_uminus a)"
| "float_divide a b = NaN"

text \<open>
  Modelled from the spec: \<^verbatim>\<open>Math::pow\<close> is declared in \<^verbatim>\<open>math/math.h\<close>, which is
  not among the source files; the spec says that the stored value is the connectivity
  raised to \<^verbatim>\<open>cfe_c\<close>. For a positive finite value that is the real power. On the
  other values the power is that of \<^verbatim>\<open>pow\<close> in the C standard (Annex F), for a finite
  exponent: any value to the power 0 is 1, NaN included; 0 has the power 0 for a positive
  exponent and an infinity for a negative one; a negative value has a power only for an
  integer exponent; an infinity to a negative power is 0.
\<close>

definition odd_integer :: "real \<Rightarrow> bool" where
  "odd_integer y = (real_of_int \<lfloor>y\<rfloor> = y \<and> odd \<lfloor>y\<rfloor>)"

fun float_pow :: "float_value \<Rightarrow> real \<Rightarrow> float_value" where
  "float_pow (Finite x) y =
     (if y = 0 then Finite 1
      else if 0 < x then Finite (x powr y)
      else if x = 0 then (if 0 < y then Finite 0 else Plus_infinity)
      else if real_of_int \<lfloor>y\<rfloor> = y
           then Finite (if odd \<lfloor>y\<rfloor> then - (\<bar>x\<bar> powr y) else \<bar>x\<bar> powr y)
           else NaN)"
| "float_pow Plus_infinity y =
     (if y = 0 then Finite 1 else if 0 < y then Plus_infinity else Finite 0)"
| "float_pow Minus_infinity y =
     (if y = 0 then Finite 1
      else if 0 < y then (if odd_integer y then Minus_infinity else Plus_infinity)
      else Finite 0)"
| "float_pow NaN y = (if y = 0 then Finite 1 else NaN)"

text \<open>
  Up to line 357 the values of the connectivity matrix are counts, which are finite; the
  loop of line 368 starts from them.
\<close>

definition float_matrix :: "(nat \<times> connectivity) list list \<Rightarrow> (nat \<times> float_value) list list" where
  "float_matrix M = map (map (\<lambda>(k, v). (k, Finite v))) M"

text \<open>
  Lines 371 to 389 for the row of \<open>fixel\<close>: the entries under the iterator, one after
  the other, with the row and the smoothing weights of the fixel as state. The count of
  an entry is divided by the track density of the row (line 373), whatever the density is.
  An entry whose connectivity is below the threshold is erased; any other gets its
  connectivity raised to \<open>cfe_c\<close> as value and, when smoothing is on and the weight
  exceeds the threshold, an entry in the smoothing weights. The distance of two positions
  and the constants of the kernel are finite.
\<close>

fun threshold_entries ::
  "settings \<Rightarrow> point list \<Rightarrow> uint16_t \<Rightarrow> nat \<Rightarrow> (nat \<times> float_value) list
     \<Rightarrow> (nat \<times> float_value) list \<times> (nat \<times> float_value) list
     \<Rightarrow> (nat \<times> float_value) list \<times> (nat \<times> float_value) list" where
  "threshold_entries s pos tdi fixel [] st = st"
| "threshold_entries s pos tdi fixel ((k, v) # rest) (row, weights) =
     (let connectivity = float_divide v (Finite (real (unat tdi))) in
      if float_less connectivity (Finite (connectivity_threshold s))
      then threshold_entries s pos tdi fixel rest (map_erase k row, weights)
      else
        (let weights' =
               (if do_smoothing s then
                  (let smoothing_weight =
                         float_times
                           (float_times connectivity (Finite (gaussian_const1 s)))
                           (Finite (exp (- (distance (pos ! fixel) (pos ! k))\<^sup>2 / gaussian_const2 s)))
                   in if float_less (Finite (connectivity_threshold s)) smoothing_weight
                      then map_insert k smoothing_weight weights else weights)
                else weights)
         in threshold_entries s pos tdi fixel rest
              (map_assign k (float_pow connectivity (cfe_c s)) row, weights')))"

text \<open>
  Lines 370 to 396 for one fixel: its row is thresholded, with its row of smoothing weights
  as it stands, then the diagonal entries are inserted, 1 into the matrix and
  \<open>gaussian_const1\<close> into the smoothing weights; \<^verbatim>\<open>insert\<close> leaves an entry that is
  already there.
\<close>

definition threshold_row ::
  "settings \<Rightarrow> point list \<Rightarrow> uint16_t list \<Rightarrow> (nat \<times> float_value) list list
     \<Rightarrow> (nat \<times> float_value) list list \<Rightarrow> nat
     \<Rightarrow> (nat \<times> float_value) list \<times> (nat \<times> float_value) list" where
  "threshold_row s pos tdi M smoothing_weights fixel =
     (let (row, weights) =
            threshold_entries s pos (tdi ! fixel) fixel (M ! fixel)
              (M ! fixel, smoothing_weights ! fixel)
      in (map_insert fixel (Finite 1) row, map_insert fixel (Finite (gaussian_const1 s)) weights))"

fun threshold_rows ::
  "settings \<Rightarrow> point list \<Rightarrow> uint16_t list \<Rightarrow> nat list
     \<Rightarrow> (nat \<times> float_value) list list \<times> (nat \<times> float_value) list list
     \<Rightarrow> (nat \<times> float_value) list list \<times> (nat \<times> float_value) list list" where
  "threshold_rows s pos tdi [] st = st"
| "threshold_rows s pos tdi (fixel # rest) (M, smoothing_weights) =
     (let (row, weights) = threshold_row s pos tdi M smoothing_weights fixel
      in threshold_rows s pos tdi rest (M[fixel := row], smoothing_weights[fixel := weights]))"

text \<open>Lines 360 and 368 to 397: all rows, starting from empty smoothing weights.\<close>

definition normalise_and_threshold ::
  "settings \<Rightarrow> point list \<Rightarrow> uint16_t list \<Rightarrow> nat \<Rightarrow> (nat \<times> connectivity) list list
     \<Rightarrow> (nat \<times> float_value) list list \<times> (nat \<times> float_value) list list" where
  "normalise_and_threshold s pos tdi n M =
     threshold_rows s pos tdi [0..<n] (float_matrix M, replicate n [])"

text \<open>
  Lines 400 to 407: every row of smoothing weights is multiplied by the inverse of its
  sum, whatever the sum is.
\<close>

definition normalise_weights :: "(nat \<times> float_value) list \<Rightarrow> (nat \<times> float_value) list" where
  "normalise_weights weights =
     (let sum = fold (\<lambda>(k, w) acc. float_plus acc w) weights (Finite 0);
          norm_factor = float_divide (Finite 1) sum
      in map (\<lambda>(k, w). (k, float_times w norm_factor)) weights)"

definition normalise_smoothing_weights ::
  "(nat \<times> float_value) list list \<Rightarrow> (nat \<times> float_value) list list" where
  "normalise_smoothing_weights smoothing_weights = map normalise_weights smoothing_weights"

text \<open>
  Lines 349 to 407 together: the finalised connectivity matrix and the normalised
  smoothing weights.
\<close>

definition finalise_connectivity ::
  "settings \<Rightarrow> point list \<Rightarrow> uint16_t list \<Rightarrow> nat \<Rightarrow> (nat \<times> connectivity) list list
     \<Rightarrow> (nat \<times> float_value) list list \<times> (nat \<times> float_value) list list" where
  "finalise_connectivity s pos tdi n M =
     (let (M', smoothing_weights) = normalise_and_threshold s pos tdi n (symmetrise n M)
      in (M', normalise_smoothing_weights smoothing_weights))"

section \<open>Loading and smoothing the subject data (lines 410 to 452)\<close>

text \<open>
  Lines 428 to 436: among the fixels of the subject's voxel, the position of the one
  whose direction has the largest absolute dot product with the direction of the template
  fixel, starting from \<open>largest_dp = 0\<close> and \<open>index_of_closest_fixel = -1\<close>.
\<close>

definition closest_subject_fixel :: "point \<Rightarrow> FixelMetric list \<Rightarrow> value_type \<times> int" where
  "closest_subject_fixel d fixels =
     fold (\<lambda>f (largest_dp, index_of_closest_fixel).
             (let dp = \<bar>dot d (fixel_dir (fixels ! f))\<bar>
              in if dp > largest_dp then (dp, int f) else (largest_dp, index_of_closest_fixel)))
          [0..<length fixels] (0, - 1)"

text \<open>Lines 427 to 439 for one voxel: every template fixel of the voxel gets the value of its match.\<close>

definition match_voxel ::
  "point list \<Rightarrow> value_type \<Rightarrow> int32_t \<times> int32_t \<Rightarrow> FixelMetric list \<Rightarrow> value_type list
     \<Rightarrow> value_type list" where
  "match_voxel dirs threshold_dp planes fixels temp_fixel_data =
     (let index = sint (fst planes); number_fixels = sint (snd planes) in
      fold (\<lambda>i temp.
              (let (largest_dp, index_of_closest_fixel) =
                     closest_subject_fixel (dirs ! nat i) fixels
               in if largest_dp > threshold_dp
                  then temp[nat i := fixel_value (fixels ! nat index_of_closest_fixel)]
                  else temp))
           [index..index + number_fixels - 1] temp_fixel_data)"

text \<open>
  Lines 418 to 440: the subject image, voxel by voxel in the order of the mask, fills
  \<^verbatim>\<open>temp_fixel_data\<close>, which starts at 0 everywhere.
\<close>

definition match_subject ::
  "fixel_index \<Rightarrow> value_type \<Rightarrow> FixelMetric list list \<Rightarrow> value_type list" where
  "match_subject idx threshold_dp subject =
     fold (\<lambda>(planes, fixels) temp. match_voxel (directions idx) threshold_dp planes fixels temp)
          (zip (indexer idx) subject) (replicate (num_fixels idx) 0)"

text \<open>
  Lines 443 to 449: the smoothed value of every fixel, one column of \<^verbatim>\<open>data\<close>. The
  matched values of a subject are finite; the weights are as the normalisation left them.
\<close>

definition smooth_data :: "(nat \<times> float_value) list list \<Rightarrow> value_type list \<Rightarrow> float_value list" where
  "smooth_data smoothing_weights temp_fixel_data =
     map (\<lambda>weights.
            fold (\<lambda>(k, w) acc. float_plus acc (float_times (Finite (temp_fixel_data ! k)) w))
                 weights (Finite 0))
         smoothing_weights"

text \<open>Lines 410 to 452: the data matrix as the list of its columns, one per subject.\<close>

definition load_data ::
  "fixel_index \<Rightarrow> value_type \<Rightarrow> (nat \<times> float_value) list list \<Rightarrow> FixelMetric list list list
     \<Rightarrow> float_value list list" where
  "load_data idx threshold_dp smoothing_weights subjects =
     map (\<lambda>subject. smooth_data smoothing_weights (match_subject idx threshold_dp subject)) subjects"

section \<open>Invariants and concrete inputs of the finalisation\<close>

text \<open>
  A matrix as the code keeps it: one row per fixel, the keys of every row in strictly
  ascending order (a \<^verbatim>\<open>std::map\<close> holds a key once and iterates in order) and
  below the number of fixels.
\<close>

definition wf_matrix :: "nat \<Rightarrow> (nat \<times> 'v) list list \<Rightarrow> bool" where
  "wf_matrix n M =
     (length M = n \<and> list_all (\<lambda>row. sorted_wrt (<) (map fst row) \<and> list_all (\<lambda>(k, v). k < n) row) M)"

text \<open>
  The state of the symmetrising loop before the turn of fixel \<open>f\<close>: every entry in a row
  above \<open>f\<close> has its mirror image.
\<close>

definition half_symmetric :: "nat \<Rightarrow> nat \<Rightarrow> (nat \<times> 'v) list list \<Rightarrow> bool" where
  "half_symmetric n f M =
     (\<forall>a < f. \<forall>b < n. map_of (M ! a) b \<noteq> None \<longrightarrow> map_of (M ! b) a = map_of (M ! a) b)"

text \<open>
  A fixel is touched by a matrix when its row has an entry or it is a key of some row.
\<close>

definition touched :: "(nat \<times> 'v) list list \<Rightarrow> nat \<Rightarrow> bool" where
  "touched M a = (M ! a \<noteq> [] \<or> (\<exists>b < length M. a \<in> map_keys (M ! b)))"

text \<open>What the thresholding makes of one cell.\<close>

definition thresholded :: "settings \<Rightarrow> uint16_t \<Rightarrow> float_value option \<Rightarrow> float_value option" where
  "thresholded s tdi cell =
     (case cell of None \<Rightarrow> None
      | Some v \<Rightarrow>
          if float_less (float_divide v (Finite (real (unat tdi)))) (Finite (connectivity_threshold s))
          then None
          else Some (float_pow (float_divide v (Finite (real (unat tdi)))) (cfe_c s)))"

text \<open>Every stored count of a raw matrix is positive, as after any number of increments.\<close>

definition positive_counts :: "(nat \<times> connectivity) list list \<Rightarrow> bool" where
  "positive_counts M = list_all (\<lambda>row. list_all (\<lambda>(k, v). 0 < v) row) M"

text \<open>A weight that is finite and positive, and the finite value of a weight.\<close>

fun positive_weight :: "float_value \<Rightarrow> bool" where
  "positive_weight (Finite x) = (0 < x)"
| "positive_weight a = False"

fun finite_value :: "float_value \<Rightarrow> real" where
  "finite_value (Finite x) = x"
| "finite_value a = 0"

text \<open>
  More concrete inputs: a streamline through both voxels of the mask of two fixels, a
  track file in which fixel 0 is crossed four times and fixel 1 once, two command lines
  without smoothing, and a raw matrix of two fixels with their positions.
\<close>

definition crossing_streamline :: "(nat \<times> point) list" where
  "crossing_streamline = [(0, (1, 0, 0)), (1, (0, 1, 0))]"

definition unequal_tracks :: "(nat \<times> point) list list" where
  "unequal_tracks = [crossing_streamline, x_streamline, x_streamline, x_streamline]"

definition high_threshold_run :: options where
  "high_threshold_run = no_options \<lparr> opt_connectivity := Some 0.5, opt_smooth := Some 0 \<rparr>"

definition no_smoothing_run :: options where
  "no_smoothing_run = no_options \<lparr> opt_smooth := Some 0 \<rparr>"

definition pair_matrix :: "(nat \<times> connectivity) list list" where
  "pair_matrix = [[(1, 3)], []]"

definition pair_positions :: "point list" where
  "pair_positions = [(0, 0, 0), (1, 0, 0)]"

section \<open>Properties of the command line and the outputs\<close>

lemma files_beta_outputs:
  "concat (map file_of (beta_outputs pfx n)) = map (\<lambda>i. pfx @ ''_beta'' @ str i @ ''.msf'') [0..<n]"
  by (induction n) (simp_all add: beta_outputs_def)

lemma population_not_test:
  "f \<in> set (population_outputs pfx n) \<Longrightarrow> \<not> test_output_pattern pfx f"
  by (auto simp: population_outputs_def test_output_pattern_def)

text \<open>
  Claim C1 says that a run without \<^verbatim>\<open>notest\<close> writes seven test outputs, the three of
  the negative tail among them. The code does not: on the command line with no option and
  the prefix \<^verbatim>\<open>out\<close> it writes the five population maps and then only
  \<^verbatim>\<open>out_perm_dist_pos.txt\<close>, \<^verbatim>\<open>out_cfe_pos.msf\<close>, \<^verbatim>\<open>out_tvalue.msf\<close> and
  \<^verbatim>\<open>out_pvalue_pos.msf\<close>; \<^verbatim>\<open>out_cfe_neg.msf\<close>, \<^verbatim>\<open>out_pvalue_neg.msf\<close> and
  \<^verbatim>\<open>out_perm_dist_neg.txt\<close> are missing.
\<close>

theorem negative_tail_not_written:
  "\<not> opt_notest no_options
   \<and> files_written (run no_options small_inputs) =
       [''out_beta0.msf'', ''out_beta1.msf'', ''out_abs_effect.msf'', ''out_std_effect.msf'',
        ''out_std_dev.msf'', ''out_perm_dist_pos.txt'', ''out_cfe_pos.msf'', ''out_tvalue.msf'',
        ''out_pvalue_pos.msf'']"
  by (simp add: files_written_def run_def no_options_def small_inputs_def read_options_def
      beta_outputs_def str.simps digit_def upt_rec)

text \<open>
  Claim C3 says that the adjustment for non-stationarity is done exactly when the flag
  \<^verbatim>\<open>nonstationary\<close> is given, with the number of permutations of
  \<^verbatim>\<open>nperms_nonstationary\<close>. The code does neither: the flag alone changes nothing in the
  run; the presence of \<^verbatim>\<open>nperms_nonstationary\<close> switches the adjustment on; and with
  \<^verbatim>\<open>nperms_nonstationary 100\<close> the pre-pass still runs 5000 permutations.
\<close>

theorem nonstationary_options_misread:
  "run (no_options \<lparr> opt_nonstationary := True \<rparr>) small_inputs = run no_options small_inputs
   \<and> \<not> do_nonstationary_adjustment (read_options (no_options \<lparr> opt_nonstationary := True \<rparr>))
   \<and> do_nonstationary_adjustment (read_options (no_options \<lparr> opt_nperms_nonstationary := Some 100 \<rparr>))
   \<and> run notest_nonstationary_run small_inputs =
       Inr [Write_fixel_output ''out_beta0.msf'', Write_fixel_output ''out_beta1.msf'',
            Write_fixel_output ''out_abs_effect.msf'', Write_fixel_output ''out_std_effect.msf'',
            Write_fixel_output ''out_std_dev.msf'',
            Precompute_empirical_stat (1 / 10, 1, 2) 5000,
            Write_fixel_output ''out_cfe_empirical.msf'']"
  by (simp add: run_def no_options_def notest_nonstationary_run_def small_inputs_def
      read_options_def cfe_integrator_def beta_outputs_def str.simps digit_def upt_rec)

text \<open>
  Claim C4 says that without \<^verbatim>\<open>cfe_e\<close> the extent exponent is 2 and without
  \<^verbatim>\<open>cfe_h\<close> the height exponent is 1. In the code the two initial values are the
  other way round: with no option the extent exponent is 1 and the height exponent is 2,
  and the permutation test runs with the integrator built from them.
\<close>

theorem cfe_defaults_swapped:
  "cfe_e (read_options no_options) = 1 \<and> cfe_h (read_options no_options) = 2
   \<and> run no_options small_inputs =
       Inr [Write_fixel_output ''out_beta0.msf'', Write_fixel_output ''out_beta1.msf'',
            Write_fixel_output ''out_abs_effect.msf'', Write_fixel_output ''out_std_effect.msf'',
            Write_fixel_output ''out_std_dev.msf'', TFCE_run (1 / 10, 1, 2) 5000,
            Save ''out_perm_dist_pos.txt'', Write_fixel_output ''out_cfe_pos.msf'',
            Write_fixel_output ''out_tvalue.msf'', Write_fixel_output ''out_pvalue_pos.msf'']"
  by (simp add: run_def read_options_def no_options_def small_inputs_def cfe_integrator_def
      beta_outputs_def str.simps digit_def upt_rec)

text \<open>
  With \<^verbatim>\<open>notest\<close> the code skips the permutation test (line 496), but the empirical
  pre-pass of lines 484 to 491 stands before that test: the files written are the
  population statistics, followed by \<^verbatim>\<open>_cfe_empirical.msf\<close> when
  \<^verbatim>\<open>do_nonstationary_adjustment\<close> is set, and no other file matches \<^verbatim>\<open>_cfe_*\<close>,
  \<^verbatim>\<open>_pvalue_*\<close> or \<^verbatim>\<open>_perm_dist_*\<close>.
\<close>

lemma notest_files:
  assumes "opt_notest opts"
  shows "files_written (run opts inp) =
           (case run opts inp of Inl e \<Rightarrow> []
            | Inr evs \<Rightarrow> population_outputs (output_prefix inp) (design_columns inp)
                @ (if do_nonstationary_adjustment (read_options opts)
                   then [output_prefix inp @ ''_cfe_empirical.msf''] else []))
         \<and> (\<forall>f \<in> set (files_written (run opts inp)).
               test_output_pattern (output_prefix inp) f \<longrightarrow>
                 do_nonstationary_adjustment (read_options opts)
                 \<and> f = output_prefix inp @ ''_cfe_empirical.msf'')"
proof -
  let ?pop = "population_outputs (output_prefix inp) (design_columns inp)"
  let ?emp = "if do_nonstationary_adjustment (read_options opts)
              then [output_prefix inp @ ''_cfe_empirical.msf''] else []"
  have files: "files_written (run opts inp) =
      (case run opts inp of Inl e \<Rightarrow> [] | Inr evs \<Rightarrow> ?pop @ ?emp)"
    using assms
    by (simp add: run_def files_written_def Let_def files_beta_outputs population_outputs_def)
  have sub: "set (files_written (run opts inp)) \<subseteq> set (?pop @ ?emp)"
    unfolding files by (cases "run opts inp") simp_all
  have "\<forall>f \<in> set (?pop @ ?emp). test_output_pattern (output_prefix inp) f \<longrightarrow>
          do_nonstationary_adjustment (read_options opts)
          \<and> f = output_prefix inp @ ''_cfe_empirical.msf''"
    using population_not_test by (auto split: if_splits)
  with sub files show ?thesis by blast
qed

text \<open>
  Claim C8 says that a run with \<^verbatim>\<open>notest\<close> writes the population statistics only and
  no file matching \<^verbatim>\<open>_cfe_*\<close>, \<^verbatim>\<open>_pvalue_*\<close> or \<^verbatim>\<open>_perm_dist_*\<close>, whatever the
  other options are; the help text of \<^verbatim>\<open>notest\<close> says the same (no permutation
  testing, only population statistics). The code does not: with \<^verbatim>\<open>notest\<close>,
  \<^verbatim>\<open>nonstationary\<close> and \<^verbatim>\<open>nperms_nonstationary 100\<close> it runs the empirical pre-pass
  with its 5000 permutations and writes \<^verbatim>\<open>out_cfe_empirical.msf\<close>, a name that matches
  \<^verbatim>\<open>_cfe_*\<close>; \<^verbatim>\<open>notest\<close> with \<^verbatim>\<open>nperms_nonstationary 100\<close> alone does the same.
\<close>

theorem notest_runs_empirical_prepass:
  "opt_notest notest_nonstationary_run
   \<and> run notest_nonstationary_run small_inputs =
       Inr [Write_fixel_output ''out_beta0.msf'', Write_fixel_output ''out_beta1.msf'',
            Write_fixel_output ''out_abs_effect.msf'', Write_fixel_output ''out_std_effect.msf'',
            Write_fixel_output ''out_std_dev.msf'',
            Precompute_empirical_stat (1 / 10, 1, 2) 5000,
            Write_fixel_output ''out_cfe_empirical.msf'']
   \<and> test_output_pattern ''out'' ''out_cfe_empirical.msf''
   \<and> ''out_cfe_empirical.msf'' \<in> set (files_written (run notest_nonstationary_run small_inputs))
   \<and> ''out_cfe_empirical.msf''
        \<in> set (files_written (run (notest_run \<lparr> opt_nperms_nonstationary := Some 100 \<rparr>) small_inputs))"
  by (simp add: files_written_def run_def notest_nonstationary_run_def notest_run_def no_options_def
      small_inputs_def read_options_def cfe_integrator_def beta_outputs_def test_output_pattern_def
      str.simps digit_def upt_rec)

section \<open>Properties of the fixel index\<close>

lemma index_loop_result:
  assumes "v + length vs = length (indexer st)"
  shows "indexer (index_loop vs v st) =
           take v (indexer st)
           @ map (\<lambda>(first, k). (word_of_nat first, word_of_nat k)) (first_fixels (length (directions st)) vs)
         \<and> length (directions (index_loop vs v st)) =
             length (directions st) + sum_list (map (\<lambda>(pos, fixels). length fixels) vs)"
  using assms
proof (induction vs arbitrary: v st)
  case Nil
  then show ?case by simp
next
  case (Cons vox vs)
  obtain pos fixels where vox: "vox = (pos, fixels)" by (cases vox)
  let ?st = "\<lparr> indexer = (indexer st)[v := (word_of_nat (length (directions st)), word_of_nat (length fixels))],
         positions = positions st @ replicate (length fixels) pos,
         directions = directions st @ map fixel_dir fixels \<rparr>"
  have v: "v < length (indexer st)" using Cons.prems by simp
  have "Suc v + length vs = length (indexer ?st)" using Cons.prems by simp
  from Cons.IH [OF this] v show ?case unfolding vox
    by (simp add: take_Suc_conv_app_nth)
qed

lemma first_fixels_bounds:
  "(first, k) \<in> set (first_fixels n vs) \<Longrightarrow>
     n \<le> first \<and> first + k \<le> n + sum_list (map (\<lambda>(pos, fixels). length fixels) vs)"
  by (induction n vs rule: first_fixels.induct) fastforce+

lemma length_first_fixels: "length (first_fixels n vs) = length vs"
  by (induction n vs rule: first_fixels.induct) simp_all

lemma first_fixels_count:
  "v < length vs \<Longrightarrow> snd (first_fixels n vs ! v) = length (snd (vs ! v))"
  by (induction n vs arbitrary: v rule: first_fixels.induct) (auto simp: nth_Cons split: nat.splits)

lemma sint_word_of_nat:
  assumes "n < 2 ^ 31"
  shows "sint (word_of_nat n :: int32_t) = int n"
proof -
  have "sint (word_of_nat n :: int32_t) = signed_take_bit 31 (int n)"
    by (simp add: signed_of_nat)
  also have "\<dots> = int n"
  proof (rule signed_take_bit_int_eq_self)
    show "- (2 ^ 31) \<le> int n" by simp
    from assms have "int n < int (2 ^ 31)" by (simp only: of_nat_less_iff)
    then show "int n < 2 ^ 31" by simp
  qed
  finally show ?thesis .
qed

text \<open>
  For every mask with fewer than \<open>2 ^ 31\<close> fixels and every voxel of it, empty or not:
  plane 0 is not negative, plane 1 is the number of fixels of the voxel, and the fixels of
  a voxel that has some lie below the number of fixels.
\<close>

lemma indexed_voxels:
  assumes "num_fixels (build_index mask_image) < 2 ^ 31" and "v < length mask_image"
  shows "0 \<le> sint (fst (indexer (build_index mask_image) ! v))
         \<and> sint (snd (indexer (build_index mask_image) ! v)) = int (length (snd (mask_image ! v)))
         \<and> (snd (mask_image ! v) \<noteq> [] \<longrightarrow>
              sint (fst (indexer (build_index mask_image) ! v)) < int (num_fixels (build_index mask_image)))"
proof -
  let ?total = "sum_list (map (\<lambda>(pos, fixels). length fixels) mask_image)"
  have "0 + length mask_image = length (indexer (initial_index (length mask_image)))"
    by (simp add: initial_index_def)
  from index_loop_result [OF this]
  have ix: "indexer (build_index mask_image) =
          map (\<lambda>(first, k). (word_of_nat first, word_of_nat k)) (first_fixels 0 mask_image)"
    and n: "num_fixels (build_index mask_image) = ?total"
    by (simp_all add: build_index_def num_fixels_def initial_index_def)
  obtain first k where fk: "first_fixels 0 mask_image ! v = (first, k)"
    by (cases "first_fixels 0 mask_image ! v")
  then have "(first, k) \<in> set (first_fixels 0 mask_image)"
    using assms(2) length_first_fixels [of 0 mask_image] by (metis nth_mem)
  from first_fixels_bounds [OF this] have b: "first + k \<le> ?total" by simp
  have k: "k = length (snd (mask_image ! v))"
    using first_fixels_count [OF assms(2), of 0] fk by simp
  have planes: "indexer (build_index mask_image) ! v = (word_of_nat first, word_of_nat k)"
    unfolding ix using assms(2) fk by (simp add: length_first_fixels)
  have small: "first < 2 ^ 31" "k < 2 ^ 31" using b assms(1) n by simp_all
  have "first < ?total" if "snd (mask_image ! v) \<noteq> []"
    using that b k by (cases "snd (mask_image ! v)") simp_all
  then show ?thesis
    unfolding planes using sint_word_of_nat [OF small(1)] sint_word_of_nat [OF small(2)] k n
    by simp
qed

text \<open>
  Claim C7 says that after the index is built an empty voxel has \<open>-1\<close> in plane 0. The
  loop of lines 303 to 315 overwrites plane 0 of every voxel it visits, empty or not, with
  the current number of directions: in the mask of three voxels whose middle one holds the
  only fixel, the empty voxels end with 0 and 1 in plane 0 (and 0 in plane 1).
\<close>

theorem empty_voxels_lose_sentinel:
  "indexer (build_index sparse_mask) = [(0, 0), (0, 1), (1, 0)]
   \<and> num_fixels (build_index sparse_mask) = 1"
  by (simp add: build_index_def sparse_mask_def initial_index_def x_fixel_def num_fixels_def)

section \<open>Properties of the track processor\<close>

lemma thr30: "angular_threshold_dp 30 = sqrt 3 / 2"
  by (simp add: angular_threshold_dp_def cos_30)

lemma thr30_lt: "angular_threshold_dp 30 < 1"
  unfolding thr30 using real_sqrt_less_iff[of 3 4] by simp

lemma map_of_map_assign: "map_of (map_assign k v m) = (map_of m)(k \<mapsto> v)"
  by (induction m) (auto simp: fun_eq_iff)

lemma map_value_map_assign:
  "map_value (map_assign k v m) k' = (if k' = k then v else map_value m k')"
  by (simp add: map_value_def map_of_map_assign)

lemma length_increment: "length (increment a b M) = length M"
  by (simp add: increment_def)

lemma map_value_increment:
  assumes "a < length M"
  shows "map_value (increment a b M ! a') b' =
           (if a' = a \<and> b' = b then map_value (M ! a) b + 1 else map_value (M ! a') b')"
  using assms by (cases "a' = a") (simp_all add: increment_def map_value_map_assign)

lemma map_keys_dom: "map_keys m = dom (map_of m)"
  by (simp add: map_keys_def dom_map_of_conv_image_fst)

lemma map_keys_map_assign: "map_keys (map_assign k v m) = insert k (map_keys m)"
  by (simp add: map_keys_dom map_of_map_assign)

lemma map_keys_increment:
  assumes "a < length M"
  shows "map_keys (increment a b M ! a') =
           (if a' = a then insert b (map_keys (M ! a)) else map_keys (M ! a'))"
  using assms by (simp add: increment_def map_keys_map_assign)

lemma length_fold_increment: "length (fold (increment a) bs M) = length M"
  by (induction bs arbitrary: M) (simp_all add: length_increment)

lemma map_value_fold_increment:
  assumes "a < length M"
  shows "map_value (fold (increment a) bs M ! a') b' =
           map_value (M ! a') b' + (if a' = a then real (count_list bs b') else 0)"
  using assms
proof (induction bs arbitrary: M)
  case Nil
  then show ?case by simp
next
  case (Cons b bs)
  then have "a < length (increment a b M)" by (simp add: length_increment)
  from Cons.IH [OF this] Cons.prems show ?case
    by (simp add: map_value_increment)
qed

lemma map_keys_fold_increment:
  assumes "a < length M"
  shows "map_keys (fold (increment a) bs M ! a') =
           (if a' = a then set bs \<union> map_keys (M ! a) else map_keys (M ! a'))"
  using assms
proof (induction bs arbitrary: M)
  case Nil
  then show ?case by simp
next
  case (Cons b bs)
  then have "a < length (increment a b M)" by (simp add: length_increment)
  from Cons.IH [OF this] Cons.prems show ?case
    by (simp add: map_keys_increment)
qed

lemma length_accumulate: "length (accumulate L M) = length M"
  by (induction L arbitrary: M) (simp_all add: length_fold_increment)

lemma count_list_Pair:
  "count_list (map (Pair x) xs) (a, b) = (if x = a then count_list xs b else 0)"
  by (induction xs) auto

lemma map_value_accumulate:
  assumes "\<forall>x \<in> set L. x < length M"
  shows "map_value (accumulate L M ! a) b =
           map_value (M ! a) b + real (count_list (ordered_pairs L) (a, b))"
  using assms
proof (induction L arbitrary: M)
  case Nil
  then show ?case by simp
next
  case (Cons x xs)
  have "\<forall>y \<in> set xs. y < length (fold (increment x) xs M)"
    using Cons.prems by (simp add: length_fold_increment)
  from Cons.IH [OF this] Cons.prems show ?case
    by (simp add: map_value_fold_increment count_list_Pair)
qed

lemma map_keys_accumulate:
  assumes "\<forall>x \<in> set L. x < length M"
  shows "map_keys (accumulate L M ! a) = map_keys (M ! a) \<union> {b. (a, b) \<in> set (ordered_pairs L)}"
  using assms
proof (induction L arbitrary: M)
  case Nil
  then show ?case by simp
next
  case (Cons x xs)
  have "\<forall>y \<in> set xs. y < length (fold (increment x) xs M)"
    using Cons.prems by (simp add: length_fold_increment)
  from Cons.IH [OF this] Cons.prems show ?case
    by (auto simp add: map_keys_fold_increment)
qed

lemma set_ordered_pairs:
  "set (ordered_pairs L) = {(L ! i, L ! j) | i j. i < j \<and> j < length L}"
proof (induction L)
  case Nil
  then show ?case by simp
next
  case (Cons x xs)
  have "{((x # xs) ! i, (x # xs) ! j) | i j. i < j \<and> j < length (x # xs)} =
        Pair x ` set xs \<union> {(xs ! i, xs ! j) | i j. i < j \<and> j < length xs}" (is "?L = ?A \<union> ?B")
  proof (intro set_eqI iffI)
    fix p assume "p \<in> ?L"
    then obtain i j where p: "p = ((x # xs) ! i, (x # xs) ! j)" and ij: "i < j" "j < length (x # xs)"
      by blast
    from ij obtain j' where j: "j = Suc j'" by (cases j) auto
    show "p \<in> ?A \<union> ?B"
    proof (cases i)
      case 0
      with p j ij show ?thesis by auto
    next
      case (Suc i')
      with p j ij show ?thesis by auto
    qed
  next
    fix p assume "p \<in> ?A \<union> ?B"
    then show "p \<in> ?L"
    proof
      assume "p \<in> ?A"
      then obtain j where "j < length xs" "p = (x, xs ! j)" by (auto simp: in_set_conv_nth)
      then have "p = ((x # xs) ! 0, (x # xs) ! Suc j) \<and> 0 < Suc j \<and> Suc j < length (x # xs)" by simp
      then show ?thesis by blast
    next
      assume "p \<in> ?B"
      then obtain i j where "p = (xs ! i, xs ! j)" "i < j" "j < length xs" by blast
      then have "p = ((x # xs) ! Suc i, (x # xs) ! Suc j) \<and> Suc i < Suc j \<and> Suc j < length (x # xs)" by simp
      then show ?thesis by blast
    qed
  qed
  with Cons show ?case by simp
qed

lemma ordered_pairs_ascending:
  "sorted_wrt (<) L \<Longrightarrow> (a, b) \<in> set (ordered_pairs L) \<Longrightarrow> a < b"
  by (induction L) auto

text \<open>
  Claim C5, as amended: for a streamline with the accepted list \<open>L\<close>, every pair of
  positions \<open>i < j\<close> of \<open>L\<close> adds exactly 1 to the cell in row \<open>L ! i\<close> and column
  \<open>L ! j\<close>, the row of the fixel listed first, and nothing else changes: the value of
  cell \<open>(a, b)\<close> grows by the number of such pairs with \<open>L ! i = a\<close> and \<open>L ! j = b\<close>,
  and the keys of row \<open>a\<close> grow by the \<open>b\<close> of these pairs. When \<open>L\<close> is strictly
  ascending all these cells have \<open>a < b\<close>: they lie in the upper triangle and none is on
  the diagonal.
\<close>

theorem accumulate_cells:
  assumes "\<forall>x \<in> set L. x < length M"
  shows "map_value (accumulate L M ! a) b =
           map_value (M ! a) b + real (count_list (ordered_pairs L) (a, b))
         \<and> map_keys (accumulate L M ! a) = map_keys (M ! a) \<union> {b. (a, b) \<in> set (ordered_pairs L)}
         \<and> set (ordered_pairs L) = {(L ! i, L ! j) | i j. i < j \<and> j < length L}
         \<and> (sorted_wrt (<) L \<longrightarrow> (\<forall>(a, b) \<in> set (ordered_pairs L). a < b))"
  using map_value_accumulate [OF assms] map_keys_accumulate [OF assms] set_ordered_pairs [of L]
    ordered_pairs_ascending [of L]
  by blast

theorem accumulate_cells_witness:
  "map_value (accumulate [0, 1] [[], []] ! 0) 1 = 1
   \<and> map_keys (accumulate [0, 1] [[], []] ! 0) = {1}
   \<and> map_keys (accumulate [0, 1] [[], []] ! 1) = {}"
proof -
  have h: "\<forall>x \<in> set [0, 1]. x < length [[], [] :: (nat \<times> connectivity) list]" by simp
  have p: "ordered_pairs [0, 1 :: nat] = [(0, 1)]" by simp
  note c = accumulate_cells [OF h]
  from c [of 0 1, THEN conjunct1] c [of 0 1, THEN conjunct2, THEN conjunct1]
    c [of 1 0, THEN conjunct2, THEN conjunct1]
  show ?thesis unfolding p by (simp add: map_value_def map_keys_def)
qed

text \<open>
  Claim C5 as stated fails: in the mask of two voxels with fixels 0 and 1, a streamline
  whose voxel set lists the voxel of fixel 1 first has \<open>L = [1, 0]\<close>, and the processor
  increments the cell of row 1 and column 0, below the diagonal; the cell of row
  \<open>min = 0\<close> and column \<open>max = 1\<close> is not created.
\<close>

theorem descending_streamline_counterexample:
  "track_processor (build_index two_fixel_mask) (angular_threshold_dp 30) descending_streamline (initial_state 2) = 
  Some \<lparr> fixel_TDI = [1, 1], connectivity_matrix = [[], [(0, 1)]] \<rparr>"
  using thr30_lt
  by (simp add: build_index_def two_fixel_mask_def initial_index_def x_fixel_def y_fixel_def
     track_processor_def descending_streamline_def initial_state_def closest_fixel_def normalise_def increment_def map_value_def numeral_2_eq_2)

lemma x_streamline_step:
  "track_processor (build_index one_fixel_mask) (angular_threshold_dp 30) x_streamline
     \<lparr> fixel_TDI = [w], connectivity_matrix = [[]] \<rparr> =
   Some \<lparr> fixel_TDI = [w + 1], connectivity_matrix = [[]] \<rparr>"
  using thr30_lt
  by (simp add: build_index_def one_fixel_mask_def initial_index_def x_fixel_def
     track_processor_def x_streamline_def closest_fixel_def normalise_def)

lemma x_streamlines:
  "process_tracks (build_index one_fixel_mask) (angular_threshold_dp 30) (replicate n x_streamline)
     \<lparr> fixel_TDI = [w], connectivity_matrix = [[]] \<rparr> =
   Some \<lparr> fixel_TDI = [w + of_nat n], connectivity_matrix = [[]] \<rparr>"
  by (induction n arbitrary: w) (simp_all add: x_streamline_step add.assoc add.commute)

text \<open>
  Claim C6 says that \<^verbatim>\<open>fixel_TDI\<close> counts in 32 bits, exactly for any total below
  \<open>2 ^ 32\<close>. The vector is declared \<^verbatim>\<open>std::vector<uint16_t>\<close>: each of 65536
  streamlines through the one fixel of the mask is accepted (its list is \<open>[0]\<close> and the
  counter goes up by one), and after all of them the counter of fixel 0 is 0.
\<close>

theorem TDI_wraps_at_16_bits:
  "assign_fixels (build_index one_fixel_mask) (angular_threshold_dp 30) x_streamline ([], [0]) = Some ([0], [1])
   \<and> process_tracks (build_index one_fixel_mask) (angular_threshold_dp 30) (replicate 65536 x_streamline)
     (initial_state 1) = Some \<lparr> fixel_TDI = [0], connectivity_matrix = [[]] \<rparr>"
proof -
  have a: "assign_fixels (build_index one_fixel_mask) (angular_threshold_dp 30) x_streamline ([], [0]) = Some ([0], [1])"
    using thr30_lt
    by (simp add: build_index_def one_fixel_mask_def initial_index_def x_fixel_def
       x_streamline_def closest_fixel_def normalise_def)
  have b: "(0 :: 16 word) + of_nat 65536 = 0" by simp
  have c: "initial_state 1 = \<lparr> fixel_TDI = [0], connectivity_matrix = [[]] \<rparr>"
    by (simp add: initial_state_def)
  have "process_tracks (build_index one_fixel_mask) (angular_threshold_dp 30) (replicate 65536 x_streamline)
     (initial_state 1) = Some \<lparr> fixel_TDI = [0], connectivity_matrix = [[]] \<rparr>"
    unfolding c using x_streamlines [of 65536 0] unfolding b .
  with a show ?thesis by (rule conjI)
qed

section \<open>Properties of the symmetrising loop\<close>

lemma wf_matrixD:
  assumes "wf_matrix n M" "a < n"
  shows "sorted_wrt (<) (map fst (M ! a))" "map_keys (M ! a) \<subseteq> {..<n}" "length M = n"
proof -
  from assms have len: "length M = n" and "M ! a \<in> set M" by (auto simp: wf_matrix_def)
  with assms(1) have "sorted_wrt (<) (map fst (M ! a))" "\<forall>(k, v) \<in> set (M ! a). k < n"
    unfolding wf_matrix_def list_all_iff by blast+
  then show "sorted_wrt (<) (map fst (M ! a))" "map_keys (M ! a) \<subseteq> {..<n}"
    by (auto simp: map_keys_def)
  show "length M = n" by (rule len)
qed

lemma wf_matrixI:
  assumes "length M = n" "\<And>a. a < n \<Longrightarrow> sorted_wrt (<) (map fst (M ! a))"
    "\<And>a. a < n \<Longrightarrow> map_keys (M ! a) \<subseteq> {..<n}"
  shows "wf_matrix n M"
  using assms unfolding wf_matrix_def list_all_iff map_keys_def
  by (fastforce simp: in_set_conv_nth)

lemma sorted_map_assign:
  "sorted_wrt (<) (map fst m) \<Longrightarrow> sorted_wrt (<) (map fst (map_assign k v m))"
proof (induction m)
  case Nil
  then show ?case by simp
next
  case (Cons e m)
  obtain k' v' where e: "e = (k', v')" by (cases e)
  have "fst ` set (map_assign k v m) = insert k (fst ` set m)"
    using map_keys_map_assign [of k v m] by (simp add: map_keys_def)
  with Cons e show ?case by auto
qed

lemma sorted_keys_distinct: "sorted_wrt (<) (map fst (m :: (nat \<times> 'v) list)) \<Longrightarrow> distinct (map fst m)"
  using strict_sorted_iff by blast

lemma symmetrise_step_cell:
  assumes "distinct (map fst es)" "\<forall>k \<in> fst ` set es. k < length M" "a < length M"
  shows "map_of (fold (\<lambda>(k, v) M'. M'[k := map_assign f v (M' ! k)]) es M ! a) b =
           (if b = f \<and> a \<in> fst ` set es then map_of es a else map_of (M ! a) b)"
  using assms
proof (induction es arbitrary: M)
  case Nil
  then show ?case by simp
next
  case (Cons e es)
  obtain k v where e: "e = (k, v)" by (cases e)
  let ?M1 = "M[k := map_assign f v (M ! k)]"
  have k: "k < length M" "k \<notin> fst ` set es" using Cons.prems e by auto
  have "map_of (fold (\<lambda>(k, v) M'. M'[k := map_assign f v (M' ! k)]) es ?M1 ! a) b =
           (if b = f \<and> a \<in> fst ` set es then map_of es a else map_of (?M1 ! a) b)"
    using Cons.prems by (intro Cons.IH) auto
  moreover have "map_of (?M1 ! a) b = (if a = k \<and> b = f then Some v else map_of (M ! a) b)"
    using k Cons.prems(3) by (cases "a = k") (simp_all add: map_of_map_assign)
  ultimately show ?case using k e by (auto simp: image_iff)
qed

lemma symmetrise_step_length:
  "length (fold (\<lambda>(k, v) M'. M'[k := map_assign f v (M' ! k)]) es M) = length M"
  by (induction es arbitrary: M) (auto)

lemma symmetrise_step_sorted:
  assumes "\<forall>a < length M. sorted_wrt (<) (map fst (M ! a))" "a < length M"
  shows "sorted_wrt (<) (map fst (fold (\<lambda>(k, v) M'. M'[k := map_assign f v (M' ! k)]) es M ! a))"
  using assms
proof (induction es arbitrary: M)
  case Nil
  then show ?case by simp
next
  case (Cons e es)
  obtain k v where e: "e = (k, v)" by (cases e)
  let ?M1 = "M[k := map_assign f v (M ! k)]"
  have "sorted_wrt (<) (map fst (?M1 ! a))" if "a < length M" for a
    using Cons.prems(1) that by (cases "a = k") (simp_all add: sorted_map_assign)
  then have "\<forall>a < length ?M1. sorted_wrt (<) (map fst (?M1 ! a))" by simp
  from Cons.IH [OF this] Cons.prems(2) e show ?case by simp
qed

lemma symmetrise_step_keys:
  assumes "a < length M"
  shows "map_keys (fold (\<lambda>(k, v) M'. M'[k := map_assign f v (M' ! k)]) es M ! a)
           \<subseteq> insert f (map_keys (M ! a))"
  using assms
proof (induction es arbitrary: M)
  case Nil
  then show ?case by auto
next
  case (Cons e es)
  obtain k v where e: "e = (k, v)" by (cases e)
  let ?M1 = "M[k := map_assign f v (M ! k)]"
  have "map_keys (?M1 ! a) \<subseteq> insert f (map_keys (M ! a))"
    using Cons.prems by (cases "a = k") (auto simp: map_keys_map_assign)
  moreover have "map_keys (fold (\<lambda>(k, v) M'. M'[k := map_assign f v (M' ! k)]) es ?M1 ! a)
           \<subseteq> insert f (map_keys (?M1 ! a))"
    using Cons.prems by (intro Cons.IH) simp
  ultimately show ?case using e by auto
qed

lemma wf_symmetrise_row:
  assumes "wf_matrix n M" "f < n"
  shows "wf_matrix n (symmetrise_row f M)"
proof (rule wf_matrixI)
  show "length (symmetrise_row f M) = n"
    using assms by (simp add: symmetrise_row_def symmetrise_step_length wf_matrix_def)
next
  fix a assume "a < n"
  then show "sorted_wrt (<) (map fst (symmetrise_row f M ! a))"
    unfolding symmetrise_row_def using assms wf_matrixD [OF assms(1)]
    by (intro symmetrise_step_sorted) auto
next
  fix a assume a: "a < n"
  then have "map_keys (symmetrise_row f M ! a) \<subseteq> insert f (map_keys (M ! a))"
    unfolding symmetrise_row_def using wf_matrixD(3) [OF assms(1) a]
    by (intro symmetrise_step_keys) simp
  with wf_matrixD(2) [OF assms(1) a] assms(2) show "map_keys (symmetrise_row f M ! a) \<subseteq> {..<n}"
    by auto
qed

lemma symmetrise_row_cell:
  assumes "wf_matrix n M" "f < n" "a < n"
  shows "map_of (symmetrise_row f M ! a) b =
           (if b = f \<and> a \<in> map_keys (M ! f) then map_of (M ! f) a else map_of (M ! a) b)"
  unfolding symmetrise_row_def map_keys_def
  using wf_matrixD [OF assms(1,2)] wf_matrixD(3) [OF assms(1,3)] assms(3)
  by (intro symmetrise_step_cell) (auto simp: map_keys_def sorted_keys_distinct)

lemma half_symmetric_step:
  assumes wf: "wf_matrix n M" and f: "f < n" and inv: "half_symmetric n f M"
  shows "half_symmetric n (Suc f) (symmetrise_row f M)"
  unfolding half_symmetric_def
proof (intro allI impI)
  fix a b
  assume a: "a < Suc f" and b: "b < n" and present: "map_of (symmetrise_row f M ! a) b \<noteq> None"
  have an: "a < n" using a f by simp
  note cell = symmetrise_row_cell [OF wf f]
  have keys: "k \<in> map_keys (M ! f) \<longleftrightarrow> map_of (M ! f) k \<noteq> None" for k
    by (simp add: map_keys_dom domIff)
  show "map_of (symmetrise_row f M ! b) a = map_of (symmetrise_row f M ! a) b"
  proof (cases "a = f")
    case True
    with present have "map_of (M ! f) b \<noteq> None"
      using cell [OF f, of b] keys by (auto split: if_splits)
    then show ?thesis using True cell [OF f, of b] cell [OF b, of f] keys by auto
  next
    case False
    then have af: "a < f" using a by simp
    show ?thesis
    proof (cases "b = f")
      case True
      show ?thesis
      proof (cases "a \<in> map_keys (M ! f)")
        case True
        with \<open>b = f\<close> show ?thesis using cell [OF an, of f] cell [OF f, of a] by simp
      next
        case False
        with present \<open>b = f\<close> have "map_of (M ! a) f \<noteq> None" using cell [OF an, of f] by simp
        with inv af f have "map_of (M ! f) a = map_of (M ! a) f"
          unfolding half_symmetric_def by blast
        with \<open>map_of (M ! a) f \<noteq> None\<close> False keys show ?thesis by simp
      qed
    next
      case False
      with present have p: "map_of (M ! a) b \<noteq> None" using cell [OF an, of b] by simp
      with inv af b have "map_of (M ! b) a = map_of (M ! a) b"
        unfolding half_symmetric_def by blast
      moreover have "map_of (symmetrise_row f M ! b) a = map_of (M ! b) a"
        using cell [OF b, of a] \<open>a \<noteq> f\<close> by simp
      moreover have "map_of (symmetrise_row f M ! a) b = map_of (M ! a) b"
        using cell [OF an, of b] False by simp
      ultimately show ?thesis by simp
    qed
  qed
qed

lemma symmetrise_prefix:
  assumes "wf_matrix n M" "k \<le> n"
  shows "wf_matrix n (fold symmetrise_row [0..<k] M) \<and> half_symmetric n k (fold symmetrise_row [0..<k] M)"
  using assms(2)
proof (induction k)
  case 0
  then show ?case using assms(1) by (simp add: half_symmetric_def)
next
  case (Suc k)
  then have "wf_matrix n (fold symmetrise_row [0..<k] M)"
    "half_symmetric n k (fold symmetrise_row [0..<k] M)" "k < n" by simp_all
  then show ?case
    using wf_symmetrise_row half_symmetric_step by simp
qed

lemma wf_symmetrise: "wf_matrix n M \<Longrightarrow> wf_matrix n (symmetrise n M)"
  using symmetrise_prefix [of n M n] by (simp add: symmetrise_def)

lemma symmetrise_symmetric:
  assumes "wf_matrix n M" "i < n" "j < n"
  shows "map_of (symmetrise n M ! i) j = map_of (symmetrise n M ! j) i"
proof -
  have h: "half_symmetric n n (symmetrise n M)"
    using symmetrise_prefix [OF assms(1), of n] by (simp add: symmetrise_def)
  show ?thesis
  proof (cases "map_of (symmetrise n M ! i) j")
    case None
    show ?thesis
    proof (cases "map_of (symmetrise n M ! j) i")
      case None
      with \<open>map_of (symmetrise n M ! i) j = None\<close> show ?thesis by simp
    next
      case (Some v)
      with h assms(2,3) have "map_of (symmetrise n M ! i) j = map_of (symmetrise n M ! j) i"
        unfolding half_symmetric_def by (metis option.distinct(1))
      then show ?thesis .
    qed
  next
    case (Some v)
    with h assms(2,3) have "map_of (symmetrise n M ! j) i = map_of (symmetrise n M ! i) j"
      unfolding half_symmetric_def by (metis option.distinct(1))
    then show ?thesis by simp
  qed
qed

text \<open>Every matrix that the track processor builds from the empty one is well formed.\<close>

lemma wf_matrix_update:
  assumes "wf_matrix n M" "sorted_wrt (<) (map fst row)" "map_keys row \<subseteq> {..<n}"
  shows "wf_matrix n (M[a := row])"
proof (rule wf_matrixI)
  show "length (M[a := row]) = n" using assms(1) by (simp add: wf_matrix_def)
next
  fix i assume "i < n"
  with wf_matrixD [OF assms(1) this] assms(2)
  show "sorted_wrt (<) (map fst (M[a := row] ! i))" by (cases "i = a") simp_all
next
  fix i assume "i < n"
  with wf_matrixD [OF assms(1) this] assms(3)
  show "map_keys (M[a := row] ! i) \<subseteq> {..<n}" by (cases "i = a") simp_all
qed

lemma wf_increment:
  assumes "wf_matrix n M" "a < n" "b < n"
  shows "wf_matrix n (increment a b M)"
  unfolding increment_def
  using wf_matrixD [OF assms(1,2)] assms(3)
  by (intro wf_matrix_update [OF assms(1)]) (simp_all add: sorted_map_assign map_keys_map_assign)

lemma wf_fold_increment:
  assumes "wf_matrix n M" "a < n" "\<forall>b \<in> set bs. b < n"
  shows "wf_matrix n (fold (increment a) bs M)"
  using assms by (induction bs arbitrary: M) (simp_all add: wf_increment)

lemma wf_accumulate:
  assumes "wf_matrix n M" "\<forall>x \<in> set L. x < n"
  shows "wf_matrix n (accumulate L M)"
  using assms by (induction L arbitrary: M) (simp_all add: wf_fold_increment)

lemma assign_fixels_bounds:
  assumes "assign_fixels idx threshold_dp streamline (L0, tdi) = Some (L, tdi')"
    "\<forall>x \<in> set L0. x < length tdi"
  shows "length tdi' = length tdi \<and> (\<forall>x \<in> set L. x < length tdi)"
  using assms
proof (induction streamline arbitrary: L0 tdi)
  case Nil
  then show ?case by simp
next
  case (Cons e streamline)
  obtain v tangent where e: "e = (v, tangent)" by (cases e)
  from Cons.prems(1) obtain L1 tdi1 where
    rest: "assign_fixels idx threshold_dp streamline (L1, tdi1) = Some (L, tdi')"
    and len: "length tdi1 = length tdi" and L1: "\<forall>x \<in> set L1. x < length tdi"
    unfolding e using Cons.prems(2)
    by (auto simp: Let_def split: if_splits prod.splits)
  from Cons.IH [OF rest] len L1 show ?case by simp
qed

lemma wf_track_processor:
  assumes "track_processor idx threshold_dp streamline st = Some st'"
    "wf_matrix n (connectivity_matrix st)" "length (fixel_TDI st) = n"
  shows "wf_matrix n (connectivity_matrix st') \<and> length (fixel_TDI st') = n"
proof -
  from assms(1) obtain L tdi where
    a: "assign_fixels idx threshold_dp streamline ([], fixel_TDI st) = Some (L, tdi)"
    and st': "st' = \<lparr> fixel_TDI = tdi, connectivity_matrix = accumulate L (connectivity_matrix st) \<rparr>"
    by (auto simp: track_processor_def split: option.splits)
  from assign_fixels_bounds [OF a] assms(3) have "length tdi = n" "\<forall>x \<in> set L. x < n" by simp_all
  with wf_accumulate [OF assms(2)] st' show ?thesis by simp
qed

lemma wf_process_tracks:
  assumes "process_tracks idx threshold_dp tracks st = Some st'"
    "wf_matrix n (connectivity_matrix st)" "length (fixel_TDI st) = n"
  shows "wf_matrix n (connectivity_matrix st') \<and> length (fixel_TDI st') = n"
  using assms
proof (induction tracks arbitrary: st)
  case Nil
  then show ?case by simp
next
  case (Cons streamline tracks)
  from Cons.prems(1) obtain st1 where
    one: "track_processor idx threshold_dp streamline st = Some st1"
    and rest: "process_tracks idx threshold_dp tracks st1 = Some st'"
    by (auto split: option.splits)
  from wf_track_processor [OF one Cons.prems(2,3)] Cons.IH [OF rest] show ?case by simp
qed

lemma wf_initial_state: "wf_matrix n (connectivity_matrix (initial_state n))"
  by (simp add: wf_matrix_def initial_state_def list_all_iff)

lemma wf_tracked_matrix:
  assumes "process_tracks idx threshold_dp tracks (initial_state n) = Some st"
  shows "wf_matrix n (connectivity_matrix st) \<and> length (fixel_TDI st) = n"
  using wf_process_tracks [OF assms wf_initial_state] by (simp add: initial_state_def)

section \<open>Properties of thresholding and normalisation\<close>

lemma map_of_map_erase: "map_of (map_erase k m) = (map_of m)(k := None)"
  by (induction m) (auto simp: map_erase_def fun_eq_iff)

lemma map_of_map_insert:
  "map_of (map_insert k v m) = (if k \<in> map_keys m then map_of m else (map_of m)(k \<mapsto> v))"
  by (auto simp: map_insert_def map_of_map_assign map_keys_dom split: option.splits)

lemma map_keys_map_insert: "map_keys (map_insert k v m) = insert k (map_keys m)"
proof (cases "map_of m k")
  case None
  then show ?thesis by (simp add: map_insert_def map_keys_map_assign)
next
  case (Some v')
  then have "k \<in> map_keys m" by (auto simp: map_keys_dom)
  with Some show ?thesis by (auto simp: map_insert_def)
qed

lemma set_map_assign: "set (map_assign k v m) \<subseteq> insert (k, v) (set m)"
  by (induction m) (auto split: if_splits)

lemma set_map_insert: "set (map_insert k v m) \<subseteq> insert (k, v) (set m)"
  using set_map_assign [of k v m] by (auto simp: map_insert_def split: option.splits)

lemma threshold_entries_cell:
  assumes "distinct (map fst es)"
  shows "map_of (fst (threshold_entries s pos tdi fixel es (row, weights))) j =
           (if j \<in> fst ` set es then thresholded s tdi (map_of es j) else map_of row j)"
  using assms
proof (induction es arbitrary: row weights)
  case Nil
  then show ?case by simp
next
  case (Cons e es)
  obtain k v where e: "e = (k, v)" by (cases e)
  from Cons.prems e have k: "k \<notin> fst ` set es" and d: "distinct (map fst es)" by auto
  let ?c = "float_divide v (Finite (real (unat tdi)))"
  show ?case
  proof (cases "float_less ?c (Finite (connectivity_threshold s))")
    case True
    then have "threshold_entries s pos tdi fixel (e # es) (row, weights) =
               threshold_entries s pos tdi fixel es (map_erase k row, weights)"
      unfolding e by (simp only: threshold_entries.simps Let_def if_True)
    with Cons.IH [OF d, of "map_erase k row" weights] True k e show ?thesis
      by (auto simp: map_of_map_erase thresholded_def image_iff)
  next
    case False
    then obtain w1 where "threshold_entries s pos tdi fixel (e # es) (row, weights) =
               threshold_entries s pos tdi fixel es (map_assign k (float_pow ?c (cfe_c s)) row, w1)"
      unfolding e by (simp only: threshold_entries.simps Let_def if_False)
    with Cons.IH [OF d, of "map_assign k (float_pow ?c (cfe_c s)) row" w1] False k e show ?thesis
      by (auto simp: map_of_map_assign thresholded_def image_iff)
  qed
qed

lemma threshold_entries_no_smoothing:
  assumes "\<not> do_smoothing s"
  shows "snd (threshold_entries s pos tdi fixel es (row, weights)) = weights"
proof (induction es arbitrary: row weights)
  case Nil
  then show ?case by simp
next
  case (Cons e es)
  obtain k v where e: "e = (k, v)" by (cases e)
  show ?case unfolding e using assms Cons.IH
    by (simp only: threshold_entries.simps Let_def if_False split: if_splits) simp
qed

lemma threshold_row_frame:
  "f \<noteq> i \<Longrightarrow> threshold_row s pos tdi (M[f := r]) (W[f := w]) i = threshold_row s pos tdi M W i"
  by (simp add: threshold_row_def)

lemma threshold_rows_length:
  "length (fst (threshold_rows s pos tdi fs (M, W))) = length M
   \<and> length (snd (threshold_rows s pos tdi fs (M, W))) = length W"
proof (induction fs arbitrary: M W)
  case Nil
  then show ?case by simp
next
  case (Cons f fs)
  obtain row weights where r: "threshold_row s pos tdi M W f = (row, weights)"
    by (cases "threshold_row s pos tdi M W f")
  from Cons.IH [of "M[f := row]" "W[f := weights]"] r show ?case by simp
qed

lemma threshold_rows_untouched:
  assumes "i \<notin> set fs"
  shows "fst (threshold_rows s pos tdi fs (M, W)) ! i = M ! i
         \<and> snd (threshold_rows s pos tdi fs (M, W)) ! i = W ! i"
  using assms
proof (induction fs arbitrary: M W)
  case Nil
  then show ?case by simp
next
  case (Cons f fs)
  obtain row weights where r: "threshold_row s pos tdi M W f = (row, weights)"
    by (cases "threshold_row s pos tdi M W f")
  from Cons.IH [of "M[f := row]" "W[f := weights]"] Cons.prems r show ?case by simp
qed

lemma threshold_rows_nth:
  assumes "distinct fs" "i \<in> set fs"
  shows "(i < length M \<longrightarrow>
            fst (threshold_rows s pos tdi fs (M, W)) ! i = fst (threshold_row s pos tdi M W i))
         \<and> (i < length W \<longrightarrow>
            snd (threshold_rows s pos tdi fs (M, W)) ! i = snd (threshold_row s pos tdi M W i))"
  using assms
proof (induction fs arbitrary: M W)
  case Nil
  then show ?case by simp
next
  case (Cons f fs)
  obtain row weights where r: "threshold_row s pos tdi M W f = (row, weights)"
    by (cases "threshold_row s pos tdi M W f")
  have step: "threshold_rows s pos tdi (f # fs) (M, W) =
              threshold_rows s pos tdi fs (M[f := row], W[f := weights])"
    using r by simp
  show ?case
  proof (cases "i = f")
    case True
    with Cons.prems(1) have "i \<notin> set fs" by simp
    from threshold_rows_untouched [OF this, of s pos tdi "M[f := row]" "W[f := weights]"]
      r True show ?thesis unfolding step by simp
  next
    case False
    with Cons.prems have "distinct fs" "i \<in> set fs" by simp_all
    from Cons.IH [OF this, of "M[f := row]" "W[f := weights]"] False
    show ?thesis unfolding step by (simp add: threshold_row_frame)
  qed
qed

section \<open>Properties of the finalised connectivity and the smoothing\<close>

lemma gaussian_const1_positive: "0 < gaussian_const1 s"
  by (simp add: gaussian_const1_def)

lemma length_symmetrise: "length (symmetrise n M) = length M"
  unfolding symmetrise_def symmetrise_row_def
  by (induction n) (simp_all add: symmetrise_step_length)

lemma finalise_connectivity_rows:
  assumes "i < n"
  shows "length M = n \<Longrightarrow> fst (finalise_connectivity s pos tdi n M) ! i =
           map_insert i (Finite 1)
             (fst (threshold_entries s pos (tdi ! i) i (float_matrix (symmetrise n M) ! i)
                     (float_matrix (symmetrise n M) ! i, [])))"
    and "snd (finalise_connectivity s pos tdi n M) ! i =
           normalise_weights (map_insert i (Finite (gaussian_const1 s))
             (snd (threshold_entries s pos (tdi ! i) i (float_matrix (symmetrise n M) ! i)
                     (float_matrix (symmetrise n M) ! i, []))))"
    and "length (snd (finalise_connectivity s pos tdi n M)) = n"
proof -
  let ?F = "float_matrix (symmetrise n M)"
  let ?R = "threshold_rows s pos tdi [0..<n] (?F, replicate n [])"
  have fin: "finalise_connectivity s pos tdi n M = (fst ?R, normalise_smoothing_weights (snd ?R))"
    by (simp add: finalise_connectivity_def normalise_and_threshold_def split_beta)
  have len: "length (snd ?R) = n" using threshold_rows_length [of s pos tdi "[0..<n]" ?F "replicate n []"]
    by simp
  have mem: "i \<in> set [0..<n]" using assms(1) by simp
  note nth = threshold_rows_nth [OF distinct_upt mem, of ?F s pos tdi "replicate n []"]
  show "fst (finalise_connectivity s pos tdi n M) ! i =
           map_insert i (Finite 1)
             (fst (threshold_entries s pos (tdi ! i) i (?F ! i) (?F ! i, [])))"
    if "length M = n"
  proof -
    have "i < length ?F" using assms(1) that by (simp add: float_matrix_def length_symmetrise)
    with nth show ?thesis
      unfolding fin using assms(1) by (simp add: threshold_row_def split_beta)
  qed
  have "i < length (replicate n ([] :: (nat \<times> float_value) list))" using assms(1) by simp
  with nth have "snd ?R ! i = snd (threshold_row s pos tdi ?F (replicate n []) i)" by blast
  then show "snd (finalise_connectivity s pos tdi n M) ! i =
           normalise_weights (map_insert i (Finite (gaussian_const1 s))
             (snd (threshold_entries s pos (tdi ! i) i (?F ! i) (?F ! i, []))))"
    unfolding fin using assms(1) len
    by (simp add: threshold_row_def split_beta normalise_smoothing_weights_def)
  show "length (snd (finalise_connectivity s pos tdi n M)) = n"
    unfolding fin using len by (simp add: normalise_smoothing_weights_def)
qed

lemma smooth_data_nth:
  assumes "i < length W"
  shows "smooth_data W t ! i =
           fold (\<lambda>(k, w) acc. float_plus acc (float_times (Finite (t ! k)) w)) (W ! i) (Finite 0)"
  using assms by (simp add: smooth_data_def)

lemma normalise_single_weight: "normalise_weights [(i, Finite 1)] = [(i, Finite 1)]"
  by (simp add: normalise_weights_def)

text \<open>
  Claim C10: with \<^verbatim>\<open>smooth 0\<close> the normalised smoothing weights of every fixel \<open>i\<close>
  are the single entry \<open>i\<close> with weight 1, so smoothing returns the matched value of
  fixel \<open>i\<close> unchanged, for any vector of matched values and so for the column of every
  subject in the data matrix. This holds for every raw matrix and every vector of track
  densities, a density of 0 included: without smoothing no weight is computed from a
  connectivity.
\<close>

theorem no_smoothing_identity:
  assumes "opt_smooth opts = Some 0" and "i < n"
  shows "snd (finalise_connectivity (read_options opts) pos tdi n M) ! i = [(i, Finite 1)]
         \<and> smooth_data (snd (finalise_connectivity (read_options opts) pos tdi n M))
               temp_fixel_data ! i = Finite (temp_fixel_data ! i)
         \<and> (\<forall>j < length subjects.
               load_data idx threshold_dp (snd (finalise_connectivity (read_options opts) pos tdi n M))
                   subjects ! j ! i
                 = Finite (match_subject idx threshold_dp (subjects ! j) ! i))"
proof -
  let ?s = "read_options opts"
  let ?W = "snd (finalise_connectivity ?s pos tdi n M)"
  from assms(1) have sd: "smooth_std_dev ?s = 0" by (simp add: read_options_def)
  then have ns: "\<not> do_smoothing ?s" and g: "gaussian_const1 ?s = 1"
    by (simp_all add: do_smoothing_def gaussian_const1_def)
  note rows = finalise_connectivity_rows(2,3) [OF assms(2), of ?s pos tdi M]
  have row: "?W ! i = [(i, Finite 1)]"
    unfolding rows(1) threshold_entries_no_smoothing [OF ns] g
    by (simp add: map_insert_def normalise_single_weight)
  have id: "smooth_data ?W t ! i = Finite (t ! i)" for t
    using smooth_data_nth [of i ?W t] rows(2) assms(2) row by simp
  have "load_data idx threshold_dp ?W subjects ! j ! i
          = Finite (match_subject idx threshold_dp (subjects ! j) ! i)" if "j < length subjects" for j
    using that id by (simp add: load_data_def)
  with row id show ?thesis by blast
qed

theorem no_smoothing_identity_witness:
  "opt_smooth no_smoothing_run = Some 0
   \<and> snd (finalise_connectivity (read_options no_smoothing_run) pair_positions [0, 0] 2 pair_matrix) ! 1
       = [(1, Finite 1)]
   \<and> smooth_data (snd (finalise_connectivity (read_options no_smoothing_run)
        pair_positions [0, 0] 2 pair_matrix)) [5, 7] ! 1 = Finite 7
   \<and> load_data (build_index two_fixel_mask) (angular_threshold_dp 30)
        (snd (finalise_connectivity (read_options no_smoothing_run) pair_positions [0, 0] 2 pair_matrix))
        [[[x_fixel], [y_fixel]]] ! 0 ! 1
       = Finite (match_subject (build_index two_fixel_mask) (angular_threshold_dp 30)
                   [[x_fixel], [y_fixel]] ! 1)"
proof -
  have o: "opt_smooth no_smoothing_run = Some 0"
    by (simp add: no_smoothing_run_def no_options_def)
  have "(1 :: nat) < 2" by simp
  from no_smoothing_identity [OF o this, where pos = pair_positions and tdi = "[0, 0]"
      and M = pair_matrix and temp_fixel_data = "[5, 7]" and subjects = "[[[x_fixel], [y_fixel]]]"
      and idx = "build_index two_fixel_mask" and threshold_dp = "angular_threshold_dp 30"]
  show ?thesis using o by simp
qed

lemma map_of_float_row:
  assumes "i < length M"
  shows "map_of (float_matrix M ! i) j = map_option Finite (map_of (M ! i) j)"
proof -
  have "map_of (map (\<lambda>(k, v). (k, Finite v)) row) j = map_option Finite (map_of row j)"
    for row :: "(nat \<times> connectivity) list"
    by (induction row) auto
  with assms show ?thesis by (simp add: float_matrix_def)
qed

lemma keys_float_row:
  assumes "i < length M"
  shows "map fst (float_matrix M ! i) = map fst (M ! i)"
  using assms by (simp add: float_matrix_def split_beta)

lemma map_of_thresholded_row:
  assumes "sorted_wrt (<) (map fst es)"
  shows "map_of (fst (threshold_entries s pos tdi i es (es, []))) j = thresholded s tdi (map_of es j)"
proof -
  have d: "distinct (map fst es)" using assms by (rule sorted_keys_distinct)
  show ?thesis
  proof (cases "j \<in> fst ` set es")
    case True
    then show ?thesis by (simp add: threshold_entries_cell [OF d])
  next
    case False
    then have "map_of es j = None" by (simp add: map_of_eq_None_iff)
    with False show ?thesis by (simp add: threshold_entries_cell [OF d] thresholded_def)
  qed
qed

lemma finalised_cell:
  assumes "wf_matrix n M" "i < n"
  shows "map_of (fst (finalise_connectivity s pos tdi n M) ! i) j =
           (if j = i \<and> thresholded s (tdi ! i) (map_option Finite (map_of (symmetrise n M ! i) i)) = None
            then Some (Finite 1)
            else thresholded s (tdi ! i) (map_option Finite (map_of (symmetrise n M ! i) j)))"
proof -
  let ?S = "symmetrise n M"
  let ?F = "float_matrix ?S"
  let ?row = "fst (threshold_entries s pos (tdi ! i) i (?F ! i) (?F ! i, []))"
  have len: "length M = n" using assms(1) by (simp add: wf_matrix_def)
  note wf = wf_symmetrise [OF assms(1)]
  have i: "i < length ?S" using assms(2) len by (simp add: length_symmetrise)
  have "sorted_wrt (<) (map fst (?F ! i))"
    unfolding keys_float_row [OF i] using wf_matrixD(1) [OF wf assms(2)] .
  then have row: "map_of ?row k = thresholded s (tdi ! i) (map_option Finite (map_of (?S ! i) k))" for k
    by (simp add: map_of_thresholded_row map_of_float_row [OF i])
  have keys: "i \<in> map_keys ?row \<longleftrightarrow> map_of ?row i \<noteq> None"
    by (simp add: map_keys_dom domIff)
  show ?thesis
    unfolding finalise_connectivity_rows(1) [OF assms(2) len] map_of_map_insert keys
    by (auto simp: row)
qed

lemma positive_counts_iff:
  "positive_counts M \<longleftrightarrow> (\<forall>row \<in> set M. \<forall>(k, v) \<in> set row. 0 < v)"
  by (simp add: positive_counts_def list_all_iff)

lemma positive_counts_step:
  assumes "positive_counts M" "\<forall>(k, v) \<in> set es. 0 < v"
  shows "positive_counts (fold (\<lambda>(k, v) M'. M'[k := map_assign f v (M' ! k)]) es M)"
  using assms
proof (induction es arbitrary: M)
  case Nil
  then show ?case by simp
next
  case (Cons e es)
  obtain k v where e: "e = (k, v)" by (cases e)
  from Cons.prems(2) e have v: "0 < v" and rest: "\<forall>(k, v) \<in> set es. 0 < v" by auto
  have "positive_counts (M[k := map_assign f v (M ! k)])"
  proof (cases "k < length M")
    case True
    then have "M ! k \<in> set M" by simp
    with Cons.prems(1) have "\<forall>(k', v') \<in> set (M ! k). 0 < v'" by (simp add: positive_counts_iff)
    with v set_map_assign [of f v "M ! k"] have "\<forall>(k', v') \<in> set (map_assign f v (M ! k)). 0 < v'"
      by auto
    with Cons.prems(1) set_update_subset_insert [of M k "map_assign f v (M ! k)"] show ?thesis
      unfolding positive_counts_iff by blast
  next
    case False
    with Cons.prems(1) show ?thesis by (simp add: list_update_beyond not_less)
  qed
  from Cons.IH [OF this rest] e show ?case by simp
qed

lemma positive_counts_symmetrise:
  assumes "positive_counts M" "n \<le> length M"
  shows "positive_counts (symmetrise n M)"
proof -
  have "positive_counts (fold symmetrise_row [0..<k] M)
        \<and> length (fold symmetrise_row [0..<k] M) = length M" if "k \<le> length M" for k
    using that
  proof (induction k)
    case 0
    with assms(1) show ?case by simp
  next
    case (Suc k)
    let ?Mk = "fold symmetrise_row [0..<k] M"
    from Suc have p: "positive_counts ?Mk" and l: "length ?Mk = length M" by simp_all
    from Suc.prems l have "?Mk ! k \<in> set ?Mk" by simp
    with p have "\<forall>(k', v) \<in> set (?Mk ! k). 0 < v" by (simp add: positive_counts_iff)
    from positive_counts_step [OF p this, where f = k] l
    have "positive_counts (symmetrise_row k ?Mk) \<and> length (symmetrise_row k ?Mk) = length M"
      by (simp add: symmetrise_row_def symmetrise_step_length)
    then show ?case by simp
  qed
  from this [OF assms(2)] show ?thesis by (simp add: symmetrise_def)
qed

lemma positive_counts_increment:
  assumes "positive_counts M"
  shows "positive_counts (increment a b M)"
proof (cases "a < length M")
  case True
  then have "M ! a \<in> set M" by simp
  with assms have row: "\<forall>(k, v) \<in> set (M ! a). 0 < v" by (simp add: positive_counts_iff)
  have "0 \<le> map_value (M ! a) b"
  proof (cases "map_of (M ! a) b")
    case None
    then show ?thesis by (simp add: map_value_def)
  next
    case (Some v)
    then have "(b, v) \<in> set (M ! a)" by (rule map_of_SomeD)
    with row Some show ?thesis by (auto simp: map_value_def)
  qed
  then have "0 < map_value (M ! a) b + 1" by simp
  with row set_map_assign [of b "map_value (M ! a) b + 1" "M ! a"]
  have "\<forall>(k, v) \<in> set (map_assign b (map_value (M ! a) b + 1) (M ! a)). 0 < v" by auto
  with assms set_update_subset_insert [of M a "map_assign b (map_value (M ! a) b + 1) (M ! a)"]
  show ?thesis unfolding positive_counts_iff increment_def by blast
next
  case False
  with assms show ?thesis by (simp add: increment_def list_update_beyond not_less)
qed

lemma positive_counts_accumulate:
  assumes "positive_counts M"
  shows "positive_counts (accumulate L M)"
  using assms
proof (induction L arbitrary: M)
  case Nil
  then show ?case by simp
next
  case (Cons a L)
  have "positive_counts (fold (increment a) bs M')" if "positive_counts M'" for bs M'
    using that by (induction bs arbitrary: M') (simp_all add: positive_counts_increment)
  with Cons show ?case by simp
qed

lemma positive_counts_process_tracks:
  assumes "process_tracks idx threshold_dp tracks st = Some st'"
    and "positive_counts (connectivity_matrix st)"
  shows "positive_counts (connectivity_matrix st')"
  using assms
proof (induction tracks arbitrary: st)
  case Nil
  then show ?case by simp
next
  case (Cons streamline tracks)
  from Cons.prems(1) obtain st1 where
    one: "track_processor idx threshold_dp streamline st = Some st1"
    and rest: "process_tracks idx threshold_dp tracks st1 = Some st'"
    by (auto split: option.splits)
  from one Cons.prems(2) have "positive_counts (connectivity_matrix st1)"
    by (auto simp: track_processor_def positive_counts_accumulate split: option.splits)
  from Cons.IH [OF rest this] show ?case .
qed

lemma positive_tracked_matrix:
  assumes "process_tracks idx threshold_dp tracks (initial_state n) = Some st"
  shows "positive_counts (connectivity_matrix st)"
  using assms by (rule positive_counts_process_tracks) (simp add: initial_state_def positive_counts_def list_all_iff)

lemma quotient_pow_not_NaN:
  assumes "0 < v" "0 \<le> t"
  shows "float_pow (float_divide (Finite v) (Finite t)) y \<noteq> NaN"
proof (cases "t = 0")
  case True
  with assms show ?thesis by simp
next
  case False
  with assms have "0 < v / t" by simp
  with False show ?thesis by simp
qed

lemma thresholded_not_NaN:
  assumes "0 < v"
  shows "thresholded s tdi (Some (Finite v)) \<noteq> Some NaN"
  using quotient_pow_not_NaN [OF assms of_nat_0_le_iff, of "unat tdi" "cfe_c s"]
  by (auto simp: thresholded_def)

lemma finalised_cell_not_NaN:
  assumes "wf_matrix n M" "positive_counts M" "i < n"
  shows "map_of (fst (finalise_connectivity s pos tdi n M) ! i) j \<noteq> Some NaN"
proof -
  let ?S = "symmetrise n M"
  have len: "length M = n" using assms(1) by (simp add: wf_matrix_def)
  then have "positive_counts ?S" using assms(2) by (intro positive_counts_symmetrise) simp_all
  moreover have "?S ! i \<in> set ?S" using assms(3) len by (simp add: length_symmetrise)
  ultimately have p: "\<forall>(k, v) \<in> set (?S ! i). 0 < v" by (simp add: positive_counts_iff)
  have "thresholded s (tdi ! i) (map_option Finite (map_of (?S ! i) k)) \<noteq> Some NaN" for k
  proof (cases "map_of (?S ! i) k")
    case None
    then show ?thesis by (simp add: thresholded_def)
  next
    case (Some v)
    then have "(k, v) \<in> set (?S ! i)" by (rule map_of_SomeD)
    with p have "0 < v" by auto
    with Some show ?thesis by (simp add: thresholded_not_NaN)
  qed
  then show ?thesis unfolding finalised_cell [OF assms(1,3)] by simp
qed

text \<open>
  Claim C2, as amended: after the symmetrising loop the matrix is symmetric, that is for
  all fixels \<open>i\<close> and \<open>j\<close> row \<open>i\<close> has the key \<open>j\<close> exactly when row \<open>j\<close> has the
  key \<open>i\<close>, and with the same value; after thresholding, exponentiation and the diagonal
  this still holds for \<open>i \<noteq> j\<close> whose track densities \<open>tdi ! i\<close> and \<open>tdi ! j\<close> are
  equal, whatever they are. No stored value is NaN when the counts of the raw matrix are
  positive, so the two values are equal for the comparison of the code as well.
\<close>

theorem connectivity_symmetry:
  assumes "wf_matrix n M" "i < n" "j < n"
  shows "map_of (symmetrise n M ! i) j = map_of (symmetrise n M ! j) i
         \<and> (i \<noteq> j \<longrightarrow> tdi ! i = tdi ! j
              \<longrightarrow> map_of (fst (finalise_connectivity s pos tdi n M) ! i) j
                    = map_of (fst (finalise_connectivity s pos tdi n M) ! j) i)
         \<and> (positive_counts M
              \<longrightarrow> map_of (fst (finalise_connectivity s pos tdi n M) ! i) j \<noteq> Some NaN)"
proof (intro conjI impI)
  show sym: "map_of (symmetrise n M ! i) j = map_of (symmetrise n M ! j) i"
    using assms by (rule symmetrise_symmetric)
  show "map_of (fst (finalise_connectivity s pos tdi n M) ! i) j
          = map_of (fst (finalise_connectivity s pos tdi n M) ! j) i"
    if "i \<noteq> j" "tdi ! i = tdi ! j"
    unfolding finalised_cell [OF assms(1,2)] finalised_cell [OF assms(1,3)]
    using that sym by simp
  show "map_of (fst (finalise_connectivity s pos tdi n M) ! i) j \<noteq> Some NaN"
    if "positive_counts M"
    using assms(1) that assms(2) by (rule finalised_cell_not_NaN)
qed

theorem connectivity_symmetry_witness:
  "wf_matrix 2 pair_matrix \<and> positive_counts pair_matrix
   \<and> map_of (symmetrise 2 pair_matrix ! 0) 1 = map_of (symmetrise 2 pair_matrix ! 1) 0
   \<and> map_of (fst (finalise_connectivity (read_options no_options)
        pair_positions [0, 0] 2 pair_matrix) ! 0) 1
     = map_of (fst (finalise_connectivity (read_options no_options)
        pair_positions [0, 0] 2 pair_matrix) ! 1) 0
   \<and> map_of (fst (finalise_connectivity (read_options no_options)
        pair_positions [0, 0] 2 pair_matrix) ! 0) 1 \<noteq> Some NaN"
proof -
  have wf: "wf_matrix 2 pair_matrix"
    by (simp add: wf_matrix_def pair_matrix_def)
  have p: "positive_counts pair_matrix"
    by (simp add: positive_counts_def pair_matrix_def)
  have b: "(0 :: nat) < 2" "(1 :: nat) < 2" by simp_all
  from connectivity_symmetry [OF wf b, of "[0, 0]" "read_options no_options" pair_positions]
  show ?thesis using wf p by auto
qed

lemma positive_weightE:
  assumes "positive_weight w"
  obtains x where "w = Finite x" "0 < x"
  using assms by (cases w) simp_all

lemma threshold_entries_positive:
  assumes "\<forall>(k, v) \<in> set es. \<exists>x. v = Finite x"
    and "es \<noteq> [] \<longrightarrow> tdi \<noteq> 0"
    and "do_smoothing s \<longrightarrow> 0 \<le> connectivity_threshold s"
    and "\<forall>(k, w) \<in> set weights. positive_weight w"
  shows "\<forall>(k, w) \<in> set (snd (threshold_entries s pos tdi fixel es (row, weights))). positive_weight w"
  using assms(1,2,4)
proof (induction es arbitrary: row weights)
  case Nil
  then show ?case by simp
next
  case (Cons e es)
  from Cons.prems(1) obtain k x where e: "e = (k, Finite x)" by (cases e) auto
  from Cons.prems(2) have "unat tdi \<noteq> 0" by (simp add: unat_eq_0)
  then have t: "real (unat tdi) \<noteq> 0" by (simp only: of_nat_eq_0_iff) simp
  define t where "t = real (unat tdi)"
  have c: "float_divide (Finite x) (Finite (real (unat tdi))) = Finite (x / t)"
    unfolding t_def float_divide.simps by (rule if_P [OF t])
  from Cons.prems(1) have es: "\<forall>(k, v) \<in> set es. \<exists>x. v = Finite x" by simp
  from Cons.prems(2) have tdi: "es \<noteq> [] \<longrightarrow> tdi \<noteq> 0" by simp
  note ih = Cons.IH [OF es tdi]
  show ?case
  proof (cases "x / t < connectivity_threshold s")
    case True
    then have "threshold_entries s pos tdi fixel (e # es) (row, weights) =
               threshold_entries s pos tdi fixel es (map_erase k row, weights)"
      unfolding e by (simp only: threshold_entries.simps Let_def c float_less.simps if_True)
    with ih [OF Cons.prems(3)] show ?thesis by simp
  next
    case False
    define w where "w = x / t * gaussian_const1 s
                          * exp (- (distance (pos ! fixel) (pos ! k))\<^sup>2 / gaussian_const2 s)"
    define w1 where "w1 = (if do_smoothing s then
                     (if connectivity_threshold s < w then map_insert k (Finite w) weights else weights)
                   else weights)"
    have "threshold_entries s pos tdi fixel (e # es) (row, weights) =
          threshold_entries s pos tdi fixel es
            (map_assign k (float_pow (Finite (x / t)) (cfe_c s)) row, w1)"
      unfolding e w1_def w_def using False
      by (simp only: threshold_entries.simps Let_def c float_less.simps float_times.simps if_False)
    moreover have "\<forall>(k, w) \<in> set w1. positive_weight w"
      using Cons.prems(3) assms(3) set_map_insert [of k "Finite w" weights] unfolding w1_def
      by (auto split: if_splits)
    ultimately show ?thesis using ih [of w1] by simp
  qed
qed

lemma fold_plus_positive:
  assumes "\<forall>(k, w) \<in> set weights. positive_weight w"
  shows "fold (\<lambda>(k, w) acc. float_plus acc w) weights (Finite a)
           = Finite (a + sum_list (map (\<lambda>(k, w). finite_value w) weights))"
  using assms
proof (induction weights arbitrary: a)
  case Nil
  then show ?case by simp
next
  case (Cons e weights)
  obtain k w where e: "e = (k, w)" by (cases e)
  with Cons.prems have "positive_weight w" by simp
  then obtain x where w: "w = Finite x" by (rule positive_weightE)
  from Cons.prems have "\<forall>(k, w) \<in> set weights. positive_weight w" by simp
  from Cons.IH [OF this, of "a + x"] e w show ?case by (simp add: add.assoc)
qed

lemma sum_list_positive:
  assumes "\<forall>(k, w) \<in> set weights. positive_weight w" "weights \<noteq> []"
  shows "0 < sum_list (map (\<lambda>(k, w). finite_value w) weights)"
  using assms
proof (induction weights)
  case Nil
  then show ?case by simp
next
  case (Cons e weights)
  obtain k w where e: "e = (k, w)" by (cases e)
  with Cons.prems have "positive_weight w" by simp
  then obtain x where w: "w = Finite x" "0 < x" by (rule positive_weightE)
  from Cons.prems have p: "\<forall>(k, w) \<in> set weights. positive_weight w" by simp
  have "0 \<le> sum_list (map (\<lambda>(k, w). finite_value w) weights)"
  proof (cases "weights = []")
    case True
    then show ?thesis by simp
  next
    case False
    with Cons.IH [OF p] show ?thesis by simp
  qed
  with e w show ?case by simp
qed

lemma normalise_weights_positive:
  assumes "\<forall>(k, w) \<in> set weights. positive_weight w" "weights \<noteq> []"
  shows "normalise_weights weights =
           map (\<lambda>(k, w). (k, Finite (finite_value w
                  * (1 / sum_list (map (\<lambda>(k, w). finite_value w) weights))))) weights"
proof -
  let ?total = "sum_list (map (\<lambda>(k, w). finite_value w) weights)"
  have total: "0 < ?total" using assms by (rule sum_list_positive)
  have sum: "fold (\<lambda>(k, w) acc. float_plus acc w) weights (Finite 0) = Finite ?total"
    using fold_plus_positive [OF assms(1), of 0] by simp
  have norm: "float_divide (Finite 1) (Finite ?total) = Finite (1 / ?total)"
    using total by simp
  have "float_times w (Finite c) = Finite (finite_value w * c)" if "positive_weight w" for w c
    using that by (cases w) simp_all
  with assms(1) have "map (\<lambda>(k, w). (k, float_times w (Finite (1 / ?total)))) weights =
      map (\<lambda>(k, w). (k, Finite (finite_value w * (1 / ?total)))) weights"
    by (intro map_cong) auto
  then show ?thesis unfolding normalise_weights_def Let_def sum norm .
qed

lemma sum_list_scaled:
  "sum_list (map (\<lambda>(k, w). finite_value w) (map (\<lambda>(k, w). (k, Finite (finite_value w * c))) weights))
     = sum_list (map (\<lambda>(k, w). finite_value w) weights) * c"
  by (induction weights) (auto simp: algebra_simps)

lemma rows_stochastic:
  assumes "0 \<le> connectivity_threshold s" and "length M = n" and "i < n"
    and "symmetrise n M ! i \<noteq> [] \<longrightarrow> tdi ! i \<noteq> 0"
  shows "(\<exists>w. map_of (snd (finalise_connectivity s pos tdi n M) ! i) i = Some w \<and> positive_weight w)
         \<and> (\<forall>(k, w) \<in> set (snd (finalise_connectivity s pos tdi n M) ! i). positive_weight w)
         \<and> sum_list (map (\<lambda>(k, w). finite_value w) (snd (finalise_connectivity s pos tdi n M) ! i)) = 1"
proof -
  let ?S = "symmetrise n M"
  let ?F = "float_matrix ?S"
  let ?thr = "snd (threshold_entries s pos (tdi ! i) i (?F ! i) (?F ! i, []))"
  let ?ins = "map_insert i (Finite (gaussian_const1 s)) ?thr"
  let ?W = "snd (finalise_connectivity s pos tdi n M)"
  let ?total = "sum_list (map (\<lambda>(k, w). finite_value w) ?ins)"
  have i: "i < length ?S" using assms(2,3) by (simp add: length_symmetrise)
  then have F: "?F ! i = map (\<lambda>(k, v). (k, Finite v)) (?S ! i)" by (simp add: float_matrix_def)
  have fin: "\<forall>(k, v) \<in> set (?F ! i). \<exists>x. v = Finite x" unfolding F by auto
  have ne: "?F ! i \<noteq> [] \<longrightarrow> tdi ! i \<noteq> 0" unfolding F using assms(4) by simp
  from assms(1) have t: "do_smoothing s \<longrightarrow> 0 \<le> connectivity_threshold s" by simp
  have "\<forall>(k, w) \<in> set ?thr. positive_weight w"
    by (rule threshold_entries_positive [OF fin ne t]) simp
  then have p: "\<forall>(k, w) \<in> set ?ins. positive_weight w"
    using set_map_insert [of i "Finite (gaussian_const1 s)" ?thr] gaussian_const1_positive [of s]
    by auto
  have "i \<in> map_keys ?ins" by (simp add: map_keys_map_insert)
  then have nonempty: "?ins \<noteq> []" by (auto simp: map_keys_def)
  have total: "0 < ?total" using p nonempty by (rule sum_list_positive)
  have row: "?W ! i = map (\<lambda>(k, w). (k, Finite (finite_value w * (1 / ?total)))) ?ins"
    unfolding finalise_connectivity_rows(2) [OF assms(3)]
    using p nonempty by (rule normalise_weights_positive)
  have entries: "\<forall>(k, w) \<in> set (?W ! i). positive_weight w"
  proof -
    have "positive_weight (Finite (finite_value w * (1 / ?total)))" if "positive_weight w" for w
      using that total by (cases w) simp_all
    with p show ?thesis unfolding row by auto
  qed
  have "map_keys (?W ! i) = map_keys ?ins" unfolding row by (force simp: map_keys_def)
  then have "i \<in> dom (map_of (?W ! i))" by (simp add: map_keys_map_insert map_keys_dom [symmetric])
  then obtain w where w: "map_of (?W ! i) i = Some w" by blast
  then have "(i, w) \<in> set (?W ! i)" by (rule map_of_SomeD)
  with entries have "positive_weight w" by auto
  with w have "\<exists>w. map_of (?W ! i) i = Some w \<and> positive_weight w" by blast
  moreover have "sum_list (map (\<lambda>(k, w). finite_value w) (?W ! i)) = 1"
    unfolding row sum_list_scaled using total by simp
  ultimately show ?thesis using entries by blast
qed

section \<open>Track densities of a tracked matrix\<close>

lemma uint16_increment:
  assumes "unat (w :: uint16_t) < 65535"
  shows "unat (w + 1) = unat w + 1" "w + 1 \<noteq> 0"
proof -
  have "unat w + unat (1 :: uint16_t) < 2 ^ LENGTH(16)" using assms by simp
  then have "unat (w + 1) = unat w + unat (1 :: uint16_t)" by (simp only: unat_add_lem)
  then show u: "unat (w + 1) = unat w + 1" by simp
  show "w + 1 \<noteq> 0"
  proof
    assume "w + 1 = 0"
    with u show False by simp
  qed
qed

lemma assign_fixels_step:
  assumes "assign_fixels idx threshold_dp ((v, tangent) # streamline) (L0, tdi) = Some (L, tdi')"
  obtains "assign_fixels idx threshold_dp streamline (L0, tdi) = Some (L, tdi')"
  | c where "c < length tdi"
      "assign_fixels idx threshold_dp streamline (L0 @ [c], tdi[c := tdi ! c + 1]) = Some (L, tdi')"
  using assms by (fastforce simp: Let_def not_le split: if_splits prod.splits)

lemma assign_fixels_counts:
  assumes "assign_fixels idx threshold_dp streamline (L0, tdi) = Some (L, tdi')"
    and "\<forall>a < length tdi. unat (tdi ! a) \<le> V"
    and "V + length streamline < 65536"
    and "\<forall>x \<in> set L0. x < length tdi \<and> tdi ! x \<noteq> 0"
  shows "length tdi' = length tdi
         \<and> (\<forall>a < length tdi. unat (tdi' ! a) \<le> V + length streamline)
         \<and> (\<forall>a < length tdi. tdi ! a \<noteq> 0 \<longrightarrow> tdi' ! a \<noteq> 0)
         \<and> (\<forall>x \<in> set L. x < length tdi \<and> tdi' ! x \<noteq> 0)"
  using assms
proof (induction streamline arbitrary: L0 tdi V)
  case Nil
  then show ?case by simp
next
  case (Cons e streamline)
  obtain v tangent where e: "e = (v, tangent)" by (cases e)
  from Cons.prems(1) [unfolded e] show ?case
  proof (cases rule: assign_fixels_step)
    case 1
    have "V + length streamline < 65536" using Cons.prems(3) by simp
    from Cons.IH [OF 1 Cons.prems(2) this Cons.prems(4)] show ?thesis by auto
  next
    case (2 c)
    let ?tdi1 = "tdi[c := tdi ! c + 1]"
    have small: "unat (tdi ! c) < 65535" using Cons.prems(2,3) 2(1) by fastforce
    have b1: "\<forall>a < length ?tdi1. unat (?tdi1 ! a) \<le> Suc V"
    proof (intro allI impI)
      fix a assume "a < length ?tdi1"
      then have a: "a < length tdi" by simp
      show "unat (?tdi1 ! a) \<le> Suc V"
      proof (cases "a = c")
        case True
        with a Cons.prems(2) uint16_increment(1) [OF small] show ?thesis by fastforce
      next
        case False
        with a Cons.prems(2) show ?thesis by fastforce
      qed
    qed
    have mono: "tdi ! a \<noteq> 0 \<longrightarrow> ?tdi1 ! a \<noteq> 0" if "a < length tdi" for a
      using that uint16_increment(2) [OF small] by (cases "a = c") simp_all
    have b3: "\<forall>x \<in> set (L0 @ [c]). x < length ?tdi1 \<and> ?tdi1 ! x \<noteq> 0"
      using Cons.prems(4) 2(1) mono uint16_increment(2) [OF small] by auto
    have b2: "Suc V + length streamline < 65536" using Cons.prems(3) by simp
    from Cons.IH [OF 2(2) b1 b2 b3] mono show ?thesis by auto
  qed
qed

lemma assign_fixels_tally:
  assumes "assign_fixels idx threshold_dp streamline (L0, tdi) = Some (L, tdi')"
  shows "\<exists>L1. L = L0 @ L1 \<and> length tdi' = length tdi
           \<and> (\<forall>j < length tdi. tdi' ! j = tdi ! j + word_of_nat (count_list L1 j))"
  using assms
proof (induction streamline arbitrary: L0 tdi)
  case Nil
  then show ?case by simp
next
  case (Cons e streamline)
  obtain v tangent where e: "e = (v, tangent)" by (cases e)
  from Cons.prems(1) [unfolded e] show ?case
  proof (cases rule: assign_fixels_step)
    case 1
    from Cons.IH [OF 1] show ?thesis .
  next
    case (2 c)
    from Cons.IH [OF 2(2)] obtain L1 where
      L: "L = (L0 @ [c]) @ L1" and len: "length tdi' = length tdi"
      and t: "\<forall>j < length tdi. tdi' ! j = tdi[c := tdi ! c + 1] ! j + word_of_nat (count_list L1 j)"
      by auto
    have "tdi' ! j = tdi ! j + word_of_nat (count_list (c # L1) j)" if "j < length tdi" for j
      using t that 2(1) by (cases "j = c") simp_all
    with L len show ?thesis by auto
  qed
qed

lemma assign_fixels_list:
  assumes "length tdi1 = length tdi2"
  shows "map_option fst (assign_fixels idx threshold_dp streamline (L0, tdi1))
           = map_option fst (assign_fixels idx threshold_dp streamline (L0, tdi2))"
  using assms
proof (induction streamline arbitrary: L0 tdi1 tdi2)
  case Nil
  then show ?case by simp
next
  case (Cons e streamline)
  obtain v tangent where e: "e = (v, tangent)" by (cases e)
  let ?first = "sint (fst (indexer idx ! v))"
  obtain dp c where cf: "closest_fixel (directions idx) (normalise tangent) ?first
      (?first + sint (snd (indexer idx ! v))) = (dp, c)"
    by (cases "closest_fixel (directions idx) (normalise tangent) ?first
      (?first + sint (snd (indexer idx ! v)))")
  show ?case
  proof (cases "0 \<le> ?first \<and> threshold_dp < dp")
    case False
    then have skip: "assign_fixels idx threshold_dp ((v, tangent) # streamline) (L0, t)
        = assign_fixels idx threshold_dp streamline (L0, t)" for t
      using cf by (auto simp: Let_def)
    show ?thesis unfolding e skip using Cons.prems by (rule Cons.IH)
  next
    case True
    show ?thesis
    proof (cases "c < 0 \<or> length tdi1 \<le> nat c")
      case out: True
      have "assign_fixels idx threshold_dp ((v, tangent) # streamline) (L0, t) = None"
        if "length t = length tdi1" for t
        using cf True out that by (auto simp: Let_def)
      from this [of tdi1] this [of tdi2] Cons.prems show ?thesis unfolding e by simp
    next
      case inside: False
      have step: "assign_fixels idx threshold_dp ((v, tangent) # streamline) (L0, t)
          = assign_fixels idx threshold_dp streamline (L0 @ [nat c], t[nat c := t ! nat c + 1])"
        if "length t = length tdi1" for t
        using cf True inside that by (auto simp: Let_def)
      have "length (tdi1[nat c := tdi1 ! nat c + 1]) = length (tdi2[nat c := tdi2 ! nat c + 1])"
        using Cons.prems by simp
      from Cons.IH [OF this, of "L0 @ [nat c]"] step [of tdi1] step [of tdi2] Cons.prems
      show ?thesis unfolding e by simp
    qed
  qed
qed

lemma track_processor_tally:
  assumes "track_processor idx threshold_dp streamline st = Some st'"
    and "length (fixel_TDI st) = n" and "j < n"
  shows "length (fixel_TDI st') = n
         \<and> fixel_TDI st' ! j = fixel_TDI st ! j
             + word_of_nat (count_list (accepted_fixels idx threshold_dp n streamline) j)"
proof -
  from assms(1) obtain L tdi where
    a: "assign_fixels idx threshold_dp streamline ([], fixel_TDI st) = Some (L, tdi)"
    and st': "fixel_TDI st' = tdi"
    by (auto simp: track_processor_def split: option.splits)
  have "map_option fst (assign_fixels idx threshold_dp streamline ([], replicate n 0))
          = map_option fst (assign_fixels idx threshold_dp streamline ([], fixel_TDI st))"
    using assms(2) by (intro assign_fixels_list) simp
  with a have L: "accepted_fixels idx threshold_dp n streamline = L"
    by (auto simp: accepted_fixels_def split: option.splits)
  from assign_fixels_tally [OF a] assms(2,3) show ?thesis unfolding L st' by auto
qed

text \<open>
  What \<^verbatim>\<open>fixel_TDI\<close> holds after the track file: for every fixel the number of its
  accepted matches over all streamlines, modulo \<open>2 ^ 16\<close>.
\<close>

lemma process_tracks_tally:
  assumes "process_tracks idx threshold_dp tracks st = Some st'"
    and "length (fixel_TDI st) = n" and "j < n"
  shows "fixel_TDI st' ! j = fixel_TDI st ! j
           + word_of_nat (count_list (concat (map (accepted_fixels idx threshold_dp n) tracks)) j)"
  using assms
proof (induction tracks arbitrary: st)
  case Nil
  then show ?case by simp
next
  case (Cons streamline tracks)
  from Cons.prems(1) obtain st1 where
    one: "track_processor idx threshold_dp streamline st = Some st1"
    and rest: "process_tracks idx threshold_dp tracks st1 = Some st'"
    by (auto split: option.splits)
  from track_processor_tally [OF one Cons.prems(2,3)] Cons.IH [OF rest _ Cons.prems(3)]
  show ?case by simp
qed

lemma fixel_TDI_modulo:
  assumes "process_tracks idx threshold_dp tracks (initial_state n) = Some st" and "j < n"
  shows "unat (fixel_TDI st ! j)
           = count_list (concat (map (accepted_fixels idx threshold_dp n) tracks)) j mod 65536"
proof -
  have "length (fixel_TDI (initial_state n)) = n" by (simp add: initial_state_def)
  from process_tracks_tally [OF assms(1) this assms(2)] assms(2)
  have "fixel_TDI st ! j
          = word_of_nat (count_list (concat (map (accepted_fixels idx threshold_dp n) tracks)) j)"
    by (simp add: initial_state_def)
  then show ?thesis by (simp add: unat_of_nat)
qed

lemma ordered_pairs_members:
  "(a, b) \<in> set (ordered_pairs L) \<Longrightarrow> a \<in> set L \<and> b \<in> set L"
  by (induction L) auto

lemma touched_accumulate:
  assumes "length M = n" "\<forall>x \<in> set L. x < n" "touched (accumulate L M) a"
  shows "touched M a \<or> a \<in> set L"
proof -
  have L: "\<forall>x \<in> set L. x < length M" using assms(1,2) by simp
  note keys = map_keys_accumulate [OF L]
  have len: "length (accumulate L M) = length M" by (rule length_accumulate)
  have ne: "m \<noteq> [] \<longleftrightarrow> map_keys m \<noteq> {}" for m :: "(nat \<times> connectivity) list"
    by (simp add: map_keys_def)
  from assms(3) consider "map_keys (accumulate L M ! a) \<noteq> {}"
    | b where "b < length M" "a \<in> map_keys (accumulate L M ! b)"
    unfolding touched_def ne len by blast
  then show ?thesis
  proof cases
    case 1
    then have "map_keys (M ! a) \<noteq> {} \<or> (\<exists>b. (a, b) \<in> set (ordered_pairs L))"
      unfolding keys by auto
    then show ?thesis unfolding touched_def ne by (auto dest: ordered_pairs_members)
  next
    case (2 b)
    then have "a \<in> map_keys (M ! b) \<or> (b, a) \<in> set (ordered_pairs L)"
      unfolding keys by auto
    with 2(1) show ?thesis unfolding touched_def by (auto dest: ordered_pairs_members)
  qed
qed

lemma track_processor_density:
  assumes "track_processor idx threshold_dp streamline st = Some st'"
    and "length (connectivity_matrix st) = n" and "length (fixel_TDI st) = n"
    and "\<forall>a < n. unat (fixel_TDI st ! a) \<le> V"
    and "V + length streamline < 65536"
    and "\<forall>a < n. touched (connectivity_matrix st) a \<longrightarrow> fixel_TDI st ! a \<noteq> 0"
  shows "length (connectivity_matrix st') = n \<and> length (fixel_TDI st') = n
         \<and> (\<forall>a < n. unat (fixel_TDI st' ! a) \<le> V + length streamline)
         \<and> (\<forall>a < n. touched (connectivity_matrix st') a \<longrightarrow> fixel_TDI st' ! a \<noteq> 0)"
proof -
  from assms(1) obtain L tdi where
    a: "assign_fixels idx threshold_dp streamline ([], fixel_TDI st) = Some (L, tdi)"
    and st': "st' = \<lparr> fixel_TDI = tdi, connectivity_matrix = accumulate L (connectivity_matrix st) \<rparr>"
    by (auto simp: track_processor_def split: option.splits)
  have "\<forall>a < length (fixel_TDI st). unat (fixel_TDI st ! a) \<le> V" using assms(3,4) by simp
  from assign_fixels_counts [OF a this assms(5)] assms(3)
  have c: "length tdi = n" "\<forall>a < n. unat (tdi ! a) \<le> V + length streamline"
    "\<forall>a < n. fixel_TDI st ! a \<noteq> 0 \<longrightarrow> tdi ! a \<noteq> 0" "\<forall>x \<in> set L. x < n \<and> tdi ! x \<noteq> 0"
    by simp_all
  have "tdi ! a \<noteq> 0" if "a < n" "touched (accumulate L (connectivity_matrix st)) a" for a
  proof -
    from touched_accumulate [OF assms(2) _ that(2)] c(4)
    have "touched (connectivity_matrix st) a \<or> a \<in> set L" by blast
    with assms(6) c(3,4) that(1) show ?thesis by blast
  qed
  with c st' assms(2) show ?thesis by (simp add: length_accumulate)
qed

lemma process_tracks_density:
  assumes "process_tracks idx threshold_dp tracks st = Some st'"
    and "length (connectivity_matrix st) = n" and "length (fixel_TDI st) = n"
    and "\<forall>a < n. unat (fixel_TDI st ! a) \<le> V"
    and "V + length (concat tracks) < 65536"
    and "\<forall>a < n. touched (connectivity_matrix st) a \<longrightarrow> fixel_TDI st ! a \<noteq> 0"
  shows "\<forall>a < n. touched (connectivity_matrix st') a \<longrightarrow> fixel_TDI st' ! a \<noteq> 0"
  using assms
proof (induction tracks arbitrary: st V)
  case Nil
  then show ?case by simp
next
  case (Cons streamline tracks)
  from Cons.prems(1) obtain st1 where
    one: "track_processor idx threshold_dp streamline st = Some st1"
    and rest: "process_tracks idx threshold_dp tracks st1 = Some st'"
    by (auto split: option.splits)
  have v: "V + length streamline < 65536" using Cons.prems(5) by simp
  note d = track_processor_density [OF one Cons.prems(2,3,4) v Cons.prems(6)]
  have "V + length streamline + length (concat tracks) < 65536" using Cons.prems(5) by simp
  with Cons.IH [OF rest, of "V + length streamline"] d show ?case by blast
qed

lemma symmetrise_prefix_keys:
  assumes "wf_matrix n M" "k \<le> n" "a < n" "b \<in> map_keys (fold symmetrise_row [0..<k] M ! a)"
  shows "b \<in> map_keys (M ! a) \<or> (b < n \<and> a \<in> map_keys (M ! b))"
  using assms(2,3,4)
proof (induction k arbitrary: a b)
  case 0
  then show ?case by simp
next
  case (Suc k)
  let ?Mk = "fold symmetrise_row [0..<k] M"
  have k: "k < n" "k \<le> n" using Suc.prems(1) by simp_all
  have wf: "wf_matrix n ?Mk" using symmetrise_prefix [OF assms(1) k(2)] by simp
  have in_keys: "x \<in> map_keys m \<longleftrightarrow> map_of m x \<noteq> None" for x and m :: "(nat \<times> connectivity) list"
    by (simp add: map_keys_dom domIff)
  from Suc.prems(3) have "map_of (symmetrise_row k ?Mk ! a) b \<noteq> None"
    by (simp add: in_keys)
  then have "(b = k \<and> a \<in> map_keys (?Mk ! k)) \<or> b \<in> map_keys (?Mk ! a)"
    unfolding symmetrise_row_cell [OF wf k(1) Suc.prems(2)] in_keys [of b]
    by (auto split: if_splits)
  then show ?case
  proof
    assume "b = k \<and> a \<in> map_keys (?Mk ! k)"
    with Suc.IH [OF k(2) k(1), of a] k(1) Suc.prems(2) show ?thesis by blast
  next
    assume "b \<in> map_keys (?Mk ! a)"
    with Suc.IH [OF k(2) Suc.prems(2)] show ?thesis by blast
  qed
qed

lemma symmetrise_row_touched:
  assumes "wf_matrix n M" "a < n" "symmetrise n M ! a \<noteq> []"
  shows "touched M a"
proof -
  from assms(3) obtain b where "b \<in> map_keys (symmetrise n M ! a)"
    by (cases "symmetrise n M ! a") (auto simp: map_keys_def)
  then have "b \<in> map_keys (fold symmetrise_row [0..<n] M ! a)" by (simp add: symmetrise_def)
  from symmetrise_prefix_keys [OF assms(1) le_refl assms(2) this]
  show ?thesis
  proof
    assume "b \<in> map_keys (M ! a)"
    then have "M ! a \<noteq> []" by (auto simp: map_keys_def)
    then show ?thesis by (simp add: touched_def)
  next
    assume "b < n \<and> a \<in> map_keys (M ! b)"
    with wf_matrixD(3) [OF assms(1,2)] show ?thesis unfolding touched_def by blast
  qed
qed

lemma tracked_density_nonzero:
  assumes "process_tracks idx threshold_dp tracks (initial_state n) = Some st"
    and "length (concat tracks) < 65536"
  shows "\<forall>i < n. symmetrise n (connectivity_matrix st) ! i \<noteq> [] \<longrightarrow> fixel_TDI st ! i \<noteq> 0"
proof -
  have i: "length (connectivity_matrix (initial_state n)) = n" "length (fixel_TDI (initial_state n)) = n"
    "\<forall>a < n. unat (fixel_TDI (initial_state n) ! a) \<le> 0"
    "\<forall>a < n. touched (connectivity_matrix (initial_state n)) a \<longrightarrow> fixel_TDI (initial_state n) ! a \<noteq> 0"
    by (simp_all add: initial_state_def touched_def map_keys_def)
  have "0 + length (concat tracks) < 65536" using assms(2) by simp
  from process_tracks_density [OF assms(1) i(1,2,3) this i(4)]
  have t: "\<forall>a < n. touched (connectivity_matrix st) a \<longrightarrow> fixel_TDI st ! a \<noteq> 0" .
  from wf_tracked_matrix [OF assms(1)] have "wf_matrix n (connectivity_matrix st)" by simp
  with t symmetrise_row_touched show ?thesis by blast
qed

text \<open>
  From the track file to the smoothing weights: when the streamlines visit fewer than
  65536 voxels in all, no counter of \<^verbatim>\<open>fixel_TDI\<close> wraps around, every fixel with a
  neighbour has a track density other than 0, and every row of the normalised smoothing
  weights has its diagonal entry, only finite positive entries, and the sum 1.
\<close>

lemma tracked_rows_stochastic:
  assumes "process_tracks idx threshold_dp tracks (initial_state n) = Some st"
    and "length (concat tracks) < 65536"
    and "0 \<le> connectivity_threshold s" and "i < n"
  shows "(\<exists>w. map_of (snd (finalise_connectivity s pos (fixel_TDI st) n (connectivity_matrix st)) ! i) i
                 = Some w \<and> positive_weight w)
         \<and> (\<forall>(k, w) \<in> set (snd (finalise_connectivity s pos (fixel_TDI st) n (connectivity_matrix st)) ! i).
               positive_weight w)
         \<and> sum_list (map (\<lambda>(k, w). finite_value w)
               (snd (finalise_connectivity s pos (fixel_TDI st) n (connectivity_matrix st)) ! i)) = 1"
proof -
  from wf_tracked_matrix [OF assms(1)] have "length (connectivity_matrix st) = n"
    by (simp add: wf_matrix_def)
  moreover from tracked_density_nonzero [OF assms(1,2)] assms(4)
  have "symmetrise n (connectivity_matrix st) ! i \<noteq> [] \<longrightarrow> fixel_TDI st ! i \<noteq> 0" by simp
  ultimately show ?thesis using assms(3,4) by (intro rows_stochastic) simp_all
qed

section \<open>The finalisation on concrete inputs\<close>

lemma two_fixel_index:
  "build_index two_fixel_mask =
     \<lparr> indexer = [(0, 1), (1, 1)], positions = [(0, 0, 0), (1, 0, 0)],
       directions = [(1, 0, 0), (0, 1, 0)] \<rparr>"
  by (simp add: build_index_def two_fixel_mask_def initial_index_def x_fixel_def y_fixel_def)

lemma crossing_step:
  "track_processor (build_index two_fixel_mask) (angular_threshold_dp 30) crossing_streamline
     \<lparr> fixel_TDI = [a, b], connectivity_matrix = [[], []] \<rparr> =
   Some \<lparr> fixel_TDI = [a + 1, b + 1], connectivity_matrix = [[(1, 1)], []] \<rparr>"
  unfolding two_fixel_index using thr30_lt
  by (simp add: track_processor_def crossing_streamline_def closest_fixel_def normalise_def
      increment_def map_value_def)

lemma x_step:
  "track_processor (build_index two_fixel_mask) (angular_threshold_dp 30) x_streamline
     \<lparr> fixel_TDI = [a, b], connectivity_matrix = M \<rparr> =
   Some \<lparr> fixel_TDI = [a + 1, b], connectivity_matrix = M \<rparr>"
  unfolding two_fixel_index using thr30_lt
  by (simp add: track_processor_def x_streamline_def closest_fixel_def normalise_def)

lemma unequal_tracks_state:
  "process_tracks (build_index two_fixel_mask) (angular_threshold_dp 30) unequal_tracks
     (initial_state 2) = Some \<lparr> fixel_TDI = [4, 1], connectivity_matrix = [[(1, 1)], []] \<rparr>"
proof -
  have i: "initial_state 2 = \<lparr> fixel_TDI = [0, 0], connectivity_matrix = [[], []] \<rparr>"
    by (simp add: initial_state_def numeral_2_eq_2)
  show ?thesis unfolding i unequal_tracks_def
    by (simp add: crossing_step x_step)
qed

lemma upt_2: "[0..<2] = [0, Suc 0]"
  by (simp add: upt_rec)

lemma replicate_2: "replicate 2 x = [x, x]"
  by (simp add: numeral_2_eq_2)

lemma symmetrise_unequal: "symmetrise 2 [[(1, 1)], []] = [[(1, 1)], [(0, 1)]]"
  by (simp add: symmetrise_def symmetrise_row_def upt_2)


lemma finalise_unequal:
  "finalise_connectivity (read_options high_threshold_run) (positions (build_index two_fixel_mask))
     [4, 1] 2 [[(1, 1)], []] =
   ([[(0, Finite 1)], [(0, Finite 1), (1, Finite 1)]], [[(0, Finite 1)], [(1, Finite 1)]])"
proof -
  let ?s = "read_options high_threshold_run"
  have s: "connectivity_threshold ?s = 1 / 2" "\<not> do_smoothing ?s" "gaussian_const1 ?s = 1"
    "cfe_c ?s = 1 / 10"
    by (simp_all add: read_options_def high_threshold_run_def no_options_def do_smoothing_def
        gaussian_const1_def)
  have r0: "threshold_row ?s pos [4, 1] [[(Suc 0, Finite 1)], [(0, Finite 1)]] [[], []] 0
              = ([(0, Finite 1)], [(0, Finite 1)])" for pos
    by (simp add: threshold_row_def s map_erase_def map_insert_def)
  have r1: "threshold_row ?s pos [4, 1] [r, [(0, Finite 1)]] [w, []] (Suc 0)
              = ([(0, Finite 1), (Suc 0, Finite 1)], [(Suc 0, Finite 1)])" for pos r w
    by (simp add: threshold_row_def s map_erase_def map_insert_def)
  show ?thesis
    unfolding finalise_connectivity_def normalise_and_threshold_def symmetrise_unequal upt_2
      replicate_2
    by (simp add: float_matrix_def r0 r1 normalise_smoothing_weights_def normalise_single_weight)
qed

text \<open>
  Claim C2 as stated fails. Of four streamlines one crosses fixels 0 and 1 and three cross
  fixel 0 alone, so the cell between them counts 1 and the track densities are 4 and 1.
  With the threshold 0.5 the connectivity 1/4 of row 0 is erased and the connectivity 1/1
  of row 1 is kept: in the finalised matrix row 1 has the key 0 and row 0 lacks the key 1.
\<close>

theorem unequal_density_counterexample:
  "process_tracks (build_index two_fixel_mask) (angular_threshold_dp 30) unequal_tracks
     (initial_state 2) = Some \<lparr> fixel_TDI = [4, 1], connectivity_matrix = [[(1, 1)], []] \<rparr>
   \<and> finalise_connectivity (read_options high_threshold_run)
        (positions (build_index two_fixel_mask)) [4, 1] 2 [[(1, 1)], []] =
      ([[(0, Finite 1)], [(0, Finite 1), (1, Finite 1)]], [[(0, Finite 1)], [(1, Finite 1)]])"
  using unequal_tracks_state finalise_unequal by (rule conjI)

lemma crossing_again:
  "track_processor (build_index two_fixel_mask) (angular_threshold_dp 30) crossing_streamline
     \<lparr> fixel_TDI = [a, b], connectivity_matrix = [[(Suc 0, c)], []] \<rparr> =
   Some \<lparr> fixel_TDI = [a + 1, b + 1], connectivity_matrix = [[(Suc 0, c + 1)], []] \<rparr>"
  unfolding two_fixel_index using thr30_lt
  by (simp add: track_processor_def crossing_streamline_def closest_fixel_def normalise_def
      increment_def map_value_def)

lemma crossing_streamlines:
  "process_tracks (build_index two_fixel_mask) (angular_threshold_dp 30)
     (replicate n crossing_streamline)
     \<lparr> fixel_TDI = [a, b], connectivity_matrix = [[(Suc 0, c)], []] \<rparr> =
   Some \<lparr> fixel_TDI = [a + of_nat n, b + of_nat n],
          connectivity_matrix = [[(Suc 0, c + real n)], []] \<rparr>"
  by (induction n arbitrary: a b c) (simp_all add: crossing_again add.assoc add.commute)

lemma wrapped_state:
  "process_tracks (build_index two_fixel_mask) (angular_threshold_dp 30)
     (replicate 65536 crossing_streamline) (initial_state 2) =
   Some \<lparr> fixel_TDI = [0, 0], connectivity_matrix = [[(1, 65536)], []] \<rparr>"
proof -
  have i: "initial_state 2 = \<lparr> fixel_TDI = [0, 0], connectivity_matrix = [[], []] \<rparr>"
    by (simp add: initial_state_def numeral_2_eq_2)
  have r: "replicate 65536 crossing_streamline = crossing_streamline # replicate 65535 crossing_streamline"
    by (simp add: replicate_Suc [symmetric] del: replicate_Suc)
  have w: "(1 :: 16 word) + of_nat 65535 = 0" by simp
  have c: "(1 :: real) + real 65535 = 65536" by simp
  have "process_tracks (build_index two_fixel_mask) (angular_threshold_dp 30)
     (replicate 65535 crossing_streamline)
     \<lparr> fixel_TDI = [1, 1], connectivity_matrix = [[(Suc 0, 1)], []] \<rparr> =
     Some \<lparr> fixel_TDI = [0, 0], connectivity_matrix = [[(Suc 0, 65536)], []] \<rparr>"
    using crossing_streamlines [of 65535 1 1 1] unfolding w c .
  moreover have "track_processor (build_index two_fixel_mask) (angular_threshold_dp 30)
     crossing_streamline \<lparr> fixel_TDI = [0, 0], connectivity_matrix = [[], []] \<rparr> =
     Some \<lparr> fixel_TDI = [1, 1], connectivity_matrix = [[(Suc 0, 1)], []] \<rparr>"
    using crossing_step [of 0 0] by simp
  ultimately show ?thesis unfolding i r
    by (simp only: process_tracks.simps option.case One_nat_def)
qed

lemma symmetrise_wrapped: "symmetrise 2 [[(1, 65536)], []] = [[(1, 65536)], [(0, 65536)]]"
  by (simp add: symmetrise_def symmetrise_row_def upt_2)

lemma finalise_wrapped:
  "finalise_connectivity (read_options no_options) (positions (build_index two_fixel_mask))
     [0, 0] 2 [[(1, 65536)], []] =
   ([[(0, Finite 1), (1, Plus_infinity)], [(0, Plus_infinity), (1, Finite 1)]],
    [[(0, Finite 0), (1, NaN)], [(0, NaN), (1, Finite 0)]])"
proof -
  let ?s = "read_options no_options"
  define g where "g = gaussian_const1 ?s"
  have g: "0 < g" "g \<noteq> 0" unfolding g_def using gaussian_const1_positive [of ?s] by simp_all
  have s: "connectivity_threshold ?s = 1 / 100" "do_smoothing ?s" "cfe_c ?s = 1 / 10"
    by (simp_all add: read_options_def no_options_def do_smoothing_def)
  have r0: "threshold_row ?s pos [0, 0] [[(Suc 0, Finite 65536)], [(0, Finite 65536)]] [[], []] 0
              = ([(0, Finite 1), (Suc 0, Plus_infinity)], [(0, Finite g), (Suc 0, Plus_infinity)])" for pos
    using g by (simp add: threshold_row_def s map_insert_def g_def [symmetric])
  have r1: "threshold_row ?s pos [0, 0] [r, [(0, Finite 65536)]] [w, []] (Suc 0)
              = ([(0, Plus_infinity), (Suc 0, Finite 1)], [(0, Plus_infinity), (Suc 0, Finite g)])" for pos r w
    using g by (simp add: threshold_row_def s map_insert_def g_def [symmetric])
  have n0: "normalise_weights [(0, Finite g), (Suc 0, Plus_infinity)] = [(0, Finite 0), (Suc 0, NaN)]"
    by (simp add: normalise_weights_def)
  have n1: "normalise_weights [(0, Plus_infinity), (Suc 0, Finite g)] = [(0, NaN), (Suc 0, Finite 0)]"
    by (simp add: normalise_weights_def)
  show ?thesis
    unfolding finalise_connectivity_def normalise_and_threshold_def symmetrise_wrapped upt_2
      replicate_2
    by (simp add: float_matrix_def r0 r1 n0 n1 normalise_smoothing_weights_def)
qed

text \<open>
  Claim C9 says that every row of the normalised smoothing weights has its diagonal entry
  with a positive weight, no negative entry, and the sum 1. The code does not keep this
  once a counter of \<^verbatim>\<open>fixel_TDI\<close> has wrapped around to 0: each of 65536 streamlines
  crosses both fixels of the mask, so the cell between them counts 65536 and both track
  densities are 0. With the default options line 373 divides 65536 by 0, the weight of
  the neighbour is infinite, the sum of the row is infinite and its inverse is 0: in both
  rows of the normalised smoothing weights the diagonal entry is 0 and the entry of the
  neighbour is NaN.
\<close>

theorem wrapped_density_weights:
  "process_tracks (build_index two_fixel_mask) (angular_threshold_dp 30)
     (replicate 65536 crossing_streamline) (initial_state 2) =
     Some \<lparr> fixel_TDI = [0, 0], connectivity_matrix = [[(1, 65536)], []] \<rparr>
   \<and> finalise_connectivity (read_options no_options) (positions (build_index two_fixel_mask))
        [0, 0] 2 [[(1, 65536)], []] =
      ([[(0, Finite 1), (1, Plus_infinity)], [(0, Plus_infinity), (1, Finite 1)]],
       [[(0, Finite 0), (1, NaN)], [(0, NaN), (1, Finite 0)]])"
  using wrapped_state finalise_wrapped by (rule conjI)

end
